theory Spec2Isabelle
  imports Complex_Main "HOL-Library.Multiset" "HOL-Library.Product_Lexorder"
begin

section \<open>Python strings\<close>

text \<open>
  A Python \<^verbatim>\<open>str\<close> is modelled as a \<^typ>\<open>string\<close>: one \<^typ>\<open>char\<close> per code point
  for ASCII text, which is the range on which \<^verbatim>\<open>lower\<close>, \<^verbatim>\<open>strip\<close>, \<^verbatim>\<open>\s\<close> and
  \<^verbatim>\<open>\d\<close> are modelled exactly. A character outside ASCII is carried as its UTF-8
  bytes, is never whitespace, a digit or a letter, and is left alone by \<^verbatim>\<open>lower\<close>.
\<close>

definition newline :: char where
  "newline = CHR 0x0A"

definition py_isspace :: "char \<Rightarrow> bool" where
  \<comment> \<open>\<^verbatim>\<open>str.isspace\<close> on ASCII: TAB, LF, VT, FF, CR, FS, GS, RS, US and the space\<close>
  "py_isspace c = (let n = (of_char c :: nat) in (9 \<le> n \<and> n \<le> 13) \<or> (28 \<le> n \<and> n \<le> 32))"

definition py_isdigit :: "char \<Rightarrow> bool" where
  "py_isdigit c = (let n = (of_char c :: nat) in 48 \<le> n \<and> n \<le> 57)"

definition lower_char :: "char \<Rightarrow> char" where
  "lower_char c = (let n = (of_char c :: nat) in if 65 \<le> n \<and> n \<le> 90 then char_of (n + 32) else c)"

definition lower :: "string \<Rightarrow> string" where
  "lower s = map lower_char s"

definition strip :: "string \<Rightarrow> string" where
  \<comment> \<open>\<^verbatim>\<open>s.strip()\<close>: whitespace removed at both ends\<close>
  "strip s = rev (dropWhile py_isspace (rev (dropWhile py_isspace s)))"

definition lstrip_chars :: "string \<Rightarrow> string \<Rightarrow> string" where
  \<comment> \<open>\<^verbatim>\<open>s.lstrip(chars)\<close>\<close>
  "lstrip_chars chars s = dropWhile (\<lambda>c. c \<in> set chars) s"

definition startswith :: "string \<Rightarrow> string \<Rightarrow> bool" where
  "startswith s p = (take (length p) s = p)"

fun split_on :: "char \<Rightarrow> string \<Rightarrow> string list" where
  "split_on sep [] = [[]]"
| "split_on sep (c # cs) =
     (if c = sep then [] # split_on sep cs
      else (case split_on sep cs of [] \<Rightarrow> [[c]] | l # ls \<Rightarrow> (c # l) # ls))"

fun join :: "string \<Rightarrow> string list \<Rightarrow> string" where
  "join sep [] = []"
| "join sep [x] = x"
| "join sep (x # y # ys) = x @ sep @ join sep (y # ys)"

section \<open>Regular expressions\<close>

text \<open>
  The patterns of the parser are written as values of \<open>rx\<close> and run by a backtracking
  matcher that lists the outcomes of a pattern in the order in which Python's \<^verbatim>\<open>re\<close>
  tries them (greedy repetition tries one more round first, lazy repetition tries to stop
  first, the left alternative comes first). The head of the list is the match \<^verbatim>\<open>re\<close>
  reports. An outcome is the text captured by group 1 so far and the rest of the input.

  Only what the patterns of the parser use is modelled. Every repeated sub-pattern of
  theirs consumes a character, so a repetition runs at most as many rounds as characters
  are left, and a round that consumes nothing is dropped. The flag \<open>ic\<close> is
  \<^verbatim>\<open>re.IGNORECASE\<close>; it acts on literals, the only classes of the patterns compiled
  with it being \<^verbatim>\<open>\s\<close> and \<^verbatim>\<open>\d\<close>. The searched patterns have no anchor and match no
  empty string, so a search goes through the suffixes of the text.
\<close>

datatype cset = Rng char char | Ch char | Space | Digit

datatype rx =
    Lit string
  | Cls "cset list"
  | NCls "cset list"
  | Dot
  | Seq rx rx
  | Alt rx rx
  | Opt rx
  | Star rx
  | StarLazy rx
  | Plus rx
  | Grp rx
  | Eol

type_synonym mres = "string option \<times> string"

fun in_cset :: "cset \<Rightarrow> char \<Rightarrow> bool" where
  "in_cset (Rng lo hi) c = ((of_char lo :: nat) \<le> of_char c \<and> (of_char c :: nat) \<le> of_char hi)"
| "in_cset (Ch x) c = (c = x)"
| "in_cset Space c = py_isspace c"
| "in_cset Digit c = py_isdigit c"

definition in_cls :: "cset list \<Rightarrow> char \<Rightarrow> bool" where
  "in_cls cs c = list_ex (\<lambda>k. in_cset k c) cs"

definition lit_eq :: "bool \<Rightarrow> string \<Rightarrow> string \<Rightarrow> bool" where
  \<comment> \<open>comparison of a literal, under \<^verbatim>\<open>re.IGNORECASE\<close> when the flag is set\<close>
  "lit_eq ic s p = (if ic then lower s = lower p else s = p)"

fun star_greedy :: "(mres \<Rightarrow> mres list) \<Rightarrow> nat \<Rightarrow> mres \<Rightarrow> mres list" where
  "star_greedy f 0 st = [st]"
| "star_greedy f (Suc n) st =
     concat (map (\<lambda>st'. if length (snd st') < length (snd st) then star_greedy f n st' else [])
                 (f st)) @ [st]"

fun star_lazy :: "(mres \<Rightarrow> mres list) \<Rightarrow> nat \<Rightarrow> mres \<Rightarrow> mres list" where
  "star_lazy f 0 st = [st]"
| "star_lazy f (Suc n) st =
     st # concat (map (\<lambda>st'. if length (snd st') < length (snd st) then star_lazy f n st' else [])
                      (f st))"

primrec rx_run :: "rx \<Rightarrow> bool \<Rightarrow> mres \<Rightarrow> mres list" where
  "rx_run (Lit p) = (\<lambda>ic st.
     if length p \<le> length (snd st) \<and> lit_eq ic (take (length p) (snd st)) p
     then [(fst st, drop (length p) (snd st))] else [])"
| "rx_run (Cls cs) = (\<lambda>ic st.
     case snd st of [] \<Rightarrow> [] | c # r \<Rightarrow> if in_cls cs c then [(fst st, r)] else [])"
| "rx_run (NCls cs) = (\<lambda>ic st.
     case snd st of [] \<Rightarrow> [] | c # r \<Rightarrow> if in_cls cs c then [] else [(fst st, r)])"
| "rx_run Dot = (\<lambda>ic st.
     case snd st of [] \<Rightarrow> [] | c # r \<Rightarrow> if c = newline then [] else [(fst st, r)])"
| "rx_run (Seq a b) = (\<lambda>ic st. concat (map (rx_run b ic) (rx_run a ic st)))"
| "rx_run (Alt a b) = (\<lambda>ic st. rx_run a ic st @ rx_run b ic st)"
| "rx_run (Opt a) = (\<lambda>ic st. rx_run a ic st @ [st])"
| "rx_run (Star a) = (\<lambda>ic st. star_greedy (rx_run a ic) (length (snd st)) st)"
| "rx_run (StarLazy a) = (\<lambda>ic st. star_lazy (rx_run a ic) (length (snd st)) st)"
| "rx_run (Plus a) = (\<lambda>ic st.
     concat (map (\<lambda>st'. star_greedy (rx_run a ic) (length (snd st')) st') (rx_run a ic st)))"
| "rx_run (Grp a) = (\<lambda>ic st.
     map (\<lambda>st'. (Some (take (length (snd st) - length (snd st')) (snd st)), snd st'))
         (rx_run a ic st))"
| "rx_run Eol = (\<lambda>ic st. if snd st = [] \<or> snd st = [newline] then [st] else [])"

fun seqs :: "rx list \<Rightarrow> rx" where
  "seqs [] = Lit []"
| "seqs [r] = r"
| "seqs (r # rs) = Seq r (seqs rs)"

fun alts :: "rx list \<Rightarrow> rx" where
  \<comment> \<open>an alternation; the empty one, which no pattern has, matches nothing\<close>
  "alts [] = NCls [Rng (CHR 0x00) (CHR 0xFF)]"
| "alts [r] = r"
| "alts (r # rs) = Alt r (alts rs)"

definition rx_match :: "rx \<Rightarrow> bool \<Rightarrow> string \<Rightarrow> mres option" where
  \<comment> \<open>\<^verbatim>\<open>re.match\<close>: the pattern at the start of the string; the leading \<^verbatim>\<open>^\<close> of a
      pattern given to it is implied\<close>
  "rx_match r ic s = (case rx_run r ic (None, s) of [] \<Rightarrow> None | m # _ \<Rightarrow> Some m)"

function rx_finditer :: "rx \<Rightarrow> nat \<Rightarrow> string \<Rightarrow> (string \<times> nat \<times> nat) list" where
  \<comment> \<open>\<^verbatim>\<open>re.finditer\<close> from position \<open>pos\<close>, where \<open>s\<close> is the text from there on: group 1,
      start and end of each match, left to right, without overlap\<close>
  "rx_finditer r pos s =
     (case rx_match r False s of
        Some (g, rest) \<Rightarrow>
          if length rest < length s
          then ((case g of None \<Rightarrow> [] | Some n \<Rightarrow> n), pos, pos + (length s - length rest))
                 # rx_finditer r (pos + (length s - length rest)) rest
          else (case s of [] \<Rightarrow> [] | _ # s' \<Rightarrow> rx_finditer r (Suc pos) s')
      | None \<Rightarrow> (case s of [] \<Rightarrow> [] | _ # s' \<Rightarrow> rx_finditer r (Suc pos) s'))"
  by pat_completeness auto
termination
  by (relation "measure (\<lambda>(r, pos, s). length s)") auto

section \<open>The parser (\<^verbatim>\<open>parser.py\<close>)\<close>

datatype PromptType = TEXT | VARIABLE | INSTRUCTION | EXAMPLE | ROLE | COMMENT | WHITESPACE

text \<open>
  The metadata of an element is a Python dict from string keys to a string (\<^verbatim>\<open>syntax\<close>,
  \<^verbatim>\<open>role\<close>) or to a list of strings (\<^verbatim>\<open>variables\<close>). The field \<^verbatim>\<open>type\<close> of the
  source is \<open>etype\<close> here. Line numbers are never negative and are naturals.
\<close>

datatype metaval = MStr string | MList "string list"

record PromptElement =
  etype :: PromptType
  content :: string
  line_start :: nat
  line_end :: nat
  raw :: string
  metadata :: "string \<rightharpoonup> metaval"

subsection \<open>Pattern tables\<close>

definition ident_start :: rx where
  "ident_start = Cls [Rng CHR ''a'' CHR ''z'', Rng CHR ''A'' CHR ''Z'', Ch CHR ''_'']"

definition ident_rest :: rx where
  "ident_rest = Star (Cls [Rng CHR ''a'' CHR ''z'', Rng CHR ''A'' CHR ''Z'',
                           Rng CHR ''0'' CHR ''9'', Ch CHR ''_''])"

definition upper_start :: rx where
  "upper_start = Cls [Rng CHR ''A'' CHR ''Z'', Ch CHR ''_'']"

definition upper_rest :: rx where
  "upper_rest = Star (Cls [Rng CHR ''A'' CHR ''Z'', Rng CHR ''0'' CHR ''9'', Ch CHR ''_''])"

definition ws :: rx where
  "ws = Star (Cls [Space])"

text \<open>
  The patterns of \<^verbatim>\<open>VARIABLE_PATTERNS\<close>, in the order of the source:
  \<^item> \<^verbatim>\<open>\{\{\s*([a-zA-Z_][a-zA-Z0-9_]*(?:\s*\|\s*[a-zA-Z_][a-zA-Z0-9_]*)*)\s*\}\}\<close>
  \<^item> \<^verbatim>\<open>\{%\s*([a-zA-Z_]+(?:\s+[^%]+)?)\s*%\}\<close>
  \<^item> \<^verbatim>\<open>\{\{\{?\s*([a-zA-Z_][a-zA-Z0-9_.]*)\s*\}\}\}?\<close>
  \<^item> \<^verbatim>\<open>\{([a-zA-Z_][a-zA-Z0-9_]*)(?::[^}]*)?\}\<close>
  \<^item> \<^verbatim>\<open>\$\{([a-zA-Z_][a-zA-Z0-9_]*)\}\<close>
  \<^item> \<^verbatim>\<open>\$([a-zA-Z_][a-zA-Z0-9_]*)\<close>
  \<^item> \<^verbatim>\<open><([A-Z_][A-Z0-9_]*)(?:\s*/>|>)\<close>
  \<^item> \<^verbatim>\<open>\[\[?([A-Z_][A-Z0-9_]*)\]?\]\<close>
\<close>

definition VARIABLE_PATTERNS :: "(rx \<times> string) list" where
  "VARIABLE_PATTERNS =
   [(seqs [Lit ''{{'', ws,
           Grp (seqs [ident_start, ident_rest,
                      Star (seqs [ws, Lit ''|'', ws, ident_start, ident_rest])]),
           ws, Lit ''}}''], ''jinja2''),
    (seqs [Lit ''{%'', ws,
           Grp (seqs [Plus ident_start,
                      Opt (seqs [Plus (Cls [Space]), Plus (NCls [Ch CHR ''%''])])]),
           ws, Lit ''%}''], ''jinja2_block''),
    (seqs [Lit ''{{'', Opt (Lit ''{''), ws,
           Grp (seqs [ident_start,
                      Star (Cls [Rng CHR ''a'' CHR ''z'', Rng CHR ''A'' CHR ''Z'',
                                 Rng CHR ''0'' CHR ''9'', Ch CHR ''_'', Ch CHR ''.''])]),
           ws, Lit ''}}'', Opt (Lit ''}'')], ''mustache''),
    (seqs [Lit ''{'', Grp (seqs [ident_start, ident_rest]),
           Opt (seqs [Lit '':'', Star (NCls [Ch CHR ''}''])]), Lit ''}''], ''fstring''),
    (seqs [Lit ''${'', Grp (seqs [ident_start, ident_rest]), Lit ''}''], ''shell_brace''),
    (seqs [Lit ''$'', Grp (seqs [ident_start, ident_rest])], ''shell''),
    (seqs [Lit ''<'', Grp (seqs [upper_start, upper_rest]),
           Alt (seqs [ws, Lit ''/>'']) (Lit ''>'')], ''xml''),
    (seqs [Lit ''['', Opt (Lit ''[''), Grp (seqs [upper_start, upper_rest]),
           Opt (Lit '']''), Lit '']''], ''placeholder'')]"

text \<open>
  The last keyword of the source is the three code points U+00E2, U+20AC, U+00A2; it
  is written here as their UTF-8 bytes.
\<close>

definition INSTRUCTION_KEYWORDS :: "string list" where
  "INSTRUCTION_KEYWORDS =
   [''you are'', ''you must'', ''you should'', ''you will'', ''you can'',
    ''do not'', ''don'' @ [CHR 0x27] @ ''t'', ''never'', ''always'', ''ensure'', ''make sure'',
    ''remember'', ''note:'', ''important:'', ''warning:'', ''caution:'',
    ''rule:'', ''constraint:'', ''requirement:'', ''instruction:'',
    ''task:'', ''goal:'', ''objective:'', ''purpose:'',
    ''format:'', ''output:'', ''respond'', ''reply'', ''answer'',
    ''think'', ''analyze'', ''consider'', ''evaluate'',
    ''step 1'', ''step 2'', ''first,'', ''then,'', ''finally,'', ''next,'',
    ''1.'', ''2.'', ''3.'', ''4.'', ''5.'',
    ''-'', ''*'',
    [CHR 0xC3, CHR 0xA2, CHR 0xE2, CHR 0x82, CHR 0xAC, CHR 0xC2, CHR 0xA2]]"

text \<open>
  The patterns of \<^verbatim>\<open>ROLE_PATTERNS\<close>; they are given to \<^verbatim>\<open>re.match\<close>, which
  anchors them at the start of the line, so their leading \<^verbatim>\<open>^\<close> is implied:
  \<^item> \<^verbatim>\<open>^(system|user|assistant|human|ai|bot):\s*\<close>
  \<^item> \<^verbatim>\<open>^<(system|user|assistant|human|ai)>\<close>
  \<^item> \<^verbatim>\<open>^\[(system|user|assistant|human|ai)\]\<close>
\<close>

definition role_names :: "rx list" where
  "role_names = [Lit ''system'', Lit ''user'', Lit ''assistant'', Lit ''human'', Lit ''ai'']"

definition ROLE_PATTERNS :: "rx list" where
  "ROLE_PATTERNS =
   [seqs [Grp (alts (role_names @ [Lit ''bot''])), Lit '':'', ws],
    seqs [Lit ''<'', Grp (alts role_names), Lit ''>''],
    seqs [Lit ''['', Grp (alts role_names), Lit '']'']]"

text \<open>
  The patterns of \<^verbatim>\<open>EXAMPLE_PATTERNS\<close>, also given to \<^verbatim>\<open>re.match\<close>:
  \<^item> \<^verbatim>\<open>^example\s*\d*:?\s*$\<close>
  \<^item> \<^verbatim>\<open>^input:\s*$\<close>, \<^verbatim>\<open>^output:\s*$\<close>, \<^verbatim>\<open>^expected:\s*$\<close>, \<^verbatim>\<open>^sample:\s*$\<close>
  \<^item> \<^verbatim>\<open>^```\<close>
\<close>

definition EXAMPLE_PATTERNS :: "rx list" where
  "EXAMPLE_PATTERNS =
   [seqs [Lit ''example'', ws, Star (Cls [Digit]), Opt (Lit '':''), ws, Eol],
    seqs [Lit ''input:'', ws, Eol],
    seqs [Lit ''output:'', ws, Eol],
    seqs [Lit ''expected:'', ws, Eol],
    seqs [Lit ''sample:'', ws, Eol],
    Lit ''```'']"

text \<open>
  The six signature patterns that \<^verbatim>\<open>detect_template_syntax\<close> counts, in the order
  of the dict literal:
  \<^item> jinja2: \<^verbatim>\<open>\{\{.*?\}\}|\{%.*?%\}\<close>
  \<^item> mustache: \<^verbatim>\<open>\{\{\{?[^{].*?\}\}\}?\<close>
  \<^item> fstring: \<^verbatim>\<open>\{[a-zA-Z_][a-zA-Z0-9_]*\}\<close>
  \<^item> shell: \<^verbatim>\<open>\$[{a-zA-Z_]\<close>
  \<^item> xml: \<^verbatim>\<open><[A-Z_]+(?:\s*/>|>)\<close>
  \<^item> placeholder: \<^verbatim>\<open>\[\[?[A-Z_]+\]?\]\<close>
\<close>

definition SYNTAX_PATTERNS :: "(string \<times> rx) list" where
  "SYNTAX_PATTERNS =
   [(''jinja2'', Alt (seqs [Lit ''{{'', StarLazy Dot, Lit ''}}''])
                     (seqs [Lit ''{%'', StarLazy Dot, Lit ''%}''])),
    (''mustache'', seqs [Lit ''{{'', Opt (Lit ''{''), NCls [Ch CHR ''{''], StarLazy Dot,
                         Lit ''}}'', Opt (Lit ''}'')]),
    (''fstring'', seqs [Lit ''{'', ident_start, ident_rest, Lit ''}'']),
    (''shell'', seqs [Lit ''$'', Cls [Ch CHR ''{'', Rng CHR ''a'' CHR ''z'',
                                     Rng CHR ''A'' CHR ''Z'', Ch CHR ''_'']]),
    (''xml'', seqs [Lit ''<'', Plus upper_start, Alt (seqs [ws, Lit ''/>'']) (Lit ''>'')]),
    (''placeholder'', seqs [Lit ''['', Opt (Lit ''[''), Plus upper_start,
                            Opt (Lit '']''), Lit '']''])]"

subsection \<open>Line classification\<close>

definition findall_count :: "rx \<Rightarrow> string \<Rightarrow> nat" where
  \<comment> \<open>\<^verbatim>\<open>len(re.findall(pattern, text))\<close>\<close>
  "findall_count r s = length (rx_finditer r 0 s)"

fun max_key :: "(string \<times> nat) list \<Rightarrow> string \<times> nat \<Rightarrow> string \<times> nat" where
  \<comment> \<open>\<^verbatim>\<open>max(d, key=d.get)\<close>: the first key of the greatest count\<close>
  "max_key [] best = best"
| "max_key ((k, n) # kvs) best = max_key kvs (if snd best < n then (k, n) else best)"

definition detect_template_syntax :: "string \<Rightarrow> string" where
  "detect_template_syntax text =
     (let syntax_counts = map (\<lambda>(k, r). (k, findall_count r text)) SYNTAX_PATTERNS
      in if Max (set (map snd syntax_counts)) = 0 then ''plain''
         else fst (max_key (tl syntax_counts) (hd syntax_counts)))"

definition extract_variables :: "string \<Rightarrow> (string \<times> string \<times> nat \<times> nat) list" where
  "extract_variables text =
     sort_key (\<lambda>v. fst (snd (snd v)))
       (concat (map (\<lambda>(pattern, syntax).
                       map (\<lambda>(name, start, end). (name, syntax, start, end))
                           (rx_finditer pattern 0 text))
                    VARIABLE_PATTERNS))"

definition is_instruction_line :: "string \<Rightarrow> bool" where
  "is_instruction_line line =
     (let line_lower = strip (lower line)
      in list_ex (\<lambda>kw. startswith line_lower kw) INSTRUCTION_KEYWORDS)"

fun first_role :: "rx list \<Rightarrow> string \<Rightarrow> string option" where
  "first_role [] line = None"
| "first_role (pattern # rest) line =
     (case rx_match pattern True line of
        Some (g, _) \<Rightarrow> Some (lower (case g of None \<Rightarrow> [] | Some n \<Rightarrow> n))
      | None \<Rightarrow> first_role rest line)"

definition is_role_marker :: "string \<Rightarrow> string option" where
  \<comment> \<open>\<open>Some name\<close> stands for the pair \<^verbatim>\<open>(True, name)\<close> of the source, \<open>None\<close>
      for \<^verbatim>\<open>(False, None)\<close>\<close>
  "is_role_marker line = first_role ROLE_PATTERNS line"

definition is_example_marker :: "string \<Rightarrow> bool" where
  "is_example_marker line =
     (let line_lower = strip (lower line)
      in list_ex (\<lambda>pattern. rx_match pattern True line_lower \<noteq> None) EXAMPLE_PATTERNS)"

subsection \<open>Segmentation\<close>

text \<open>
  The local variables of \<^verbatim>\<open>parse_prompt\<close> that its loop and the closure
  \<^verbatim>\<open>flush_element\<close> update.
\<close>

record pstate =
  elements :: "PromptElement list"
  in_example :: bool
  in_code_block :: bool
  current_element_lines :: "string list"
  current_element_type :: "PromptType option"
  element_start_line :: nat

definition init_pstate :: pstate where
  "init_pstate = \<lparr>elements = [], in_example = False, in_code_block = False,
                  current_element_lines = [], current_element_type = None,
                  element_start_line = 0\<rparr>"

definition flush_element :: "string \<Rightarrow> pstate \<Rightarrow> pstate" where
  "flush_element syntax st =
     (if current_element_lines st \<noteq> [] then
        (let content = join [newline] (current_element_lines st) in
         st\<lparr>elements := elements st @
               [\<lparr>etype = (case current_element_type st of None \<Rightarrow> TEXT | Some t \<Rightarrow> t),
                 content = content,
                 line_start = element_start_line st,
                 line_end = element_start_line st + length (current_element_lines st) - 1,
                 raw = content,
                 metadata = [''syntax'' \<mapsto> MStr syntax]\<rparr>],
            current_element_lines := [],
            current_element_type := None\<rparr>)
      else st)"

definition append_line :: "string \<Rightarrow> pstate \<Rightarrow> pstate" where
  \<comment> \<open>\<^verbatim>\<open>current_element_lines.append(line)\<close>\<close>
  "append_line line st = st\<lparr>current_element_lines := current_element_lines st @ [line]\<rparr>"

definition single_line_element ::
  "PromptType \<Rightarrow> string \<Rightarrow> nat \<Rightarrow> string \<Rightarrow> (string \<rightharpoonup> metaval) \<Rightarrow> PromptElement" where
  "single_line_element t c i line md =
     \<lparr>etype = t, content = c, line_start = i, line_end = i, raw = line, metadata = md\<rparr>"

definition emit :: "PromptElement \<Rightarrow> pstate \<Rightarrow> pstate" where
  \<comment> \<open>\<^verbatim>\<open>elements.append(...)\<close>\<close>
  "emit e st = st\<lparr>elements := elements st @ [e]\<rparr>"

definition parse_line :: "string \<Rightarrow> nat \<Rightarrow> string \<Rightarrow> pstate \<Rightarrow> pstate" where
  \<comment> \<open>one round of the loop \<^verbatim>\<open>for i, line in enumerate(lines)\<close>\<close>
  "parse_line syntax i line st =
     (let stripped = strip line in
      if startswith stripped ''```'' then
        (let st1 = st\<lparr>in_code_block := \<not> in_code_block st\<rparr>;
             st2 = (if in_code_block st1
                    then (flush_element syntax st1)
                           \<lparr>element_start_line := i, current_element_type := Some EXAMPLE\<rparr>
                    else st1);
             st3 = append_line line st2
         in if \<not> in_code_block st3 then flush_element syntax st3 else st3)
      else if in_code_block st then append_line line st
      else
        (case is_role_marker stripped of
           Some role_name \<Rightarrow>
             emit (single_line_element ROLE role_name i line [''role'' \<mapsto> MStr role_name])
                  (flush_element syntax st)
         | None \<Rightarrow>
             if startswith stripped ''#'' \<or> startswith stripped ''//'' then
               emit (single_line_element COMMENT (lstrip_chars ''#/ '' stripped) i line Map.empty)
                    (flush_element syntax st)
             else if is_example_marker stripped then
               append_line line
                 ((flush_element syntax st)
                    \<lparr>in_example := True, element_start_line := i,
                     current_element_type := Some EXAMPLE\<rparr>)
             else if is_instruction_line stripped \<and> \<not> in_example st then
               append_line line
                 (if current_element_type st \<noteq> Some INSTRUCTION
                  then (flush_element syntax st)
                         \<lparr>element_start_line := i, current_element_type := Some INSTRUCTION\<rparr>
                  else st)
             else if stripped = [] then
               (if current_element_lines st \<noteq> [] then append_line line st
                else if elements st \<noteq> []
                     then emit (single_line_element WHITESPACE [] i line Map.empty) st
                     else st)
                 \<lparr>in_example := False\<rparr>
             else
               append_line line
                 (if current_element_type st = None
                  then st\<lparr>current_element_type := Some TEXT, element_start_line := i\<rparr>
                  else st)))"

fun parse_lines :: "string \<Rightarrow> nat \<Rightarrow> string list \<Rightarrow> pstate \<Rightarrow> pstate" where
  \<comment> \<open>the loop over \<^verbatim>\<open>enumerate(lines)\<close>, from index \<open>i\<close> on\<close>
  "parse_lines syntax i [] st = st"
| "parse_lines syntax i (line # lines) st =
     parse_lines syntax (Suc i) lines (parse_line syntax i line st)"

definition annotate :: "PromptElement \<Rightarrow> PromptElement" where
  \<comment> \<open>the body of the last loop of \<^verbatim>\<open>parse_prompt\<close>\<close>
  "annotate element =
     (if etype element \<in> {TEXT, INSTRUCTION, EXAMPLE} then
        (let vars = extract_variables (content element) in
         if vars \<noteq> []
         then element\<lparr>metadata := (metadata element)(''variables'' \<mapsto> MList (map fst vars))\<rparr>
         else element)
      else element)"

definition parse_prompt :: "string \<Rightarrow> PromptElement list" where
  "parse_prompt text =
     (let lines = split_on newline text;
          syntax = detect_template_syntax text;
          st = flush_element syntax (parse_lines syntax 0 lines init_pstate)
      in map annotate (elements st))"

definition element_variables :: "PromptElement \<Rightarrow> string set" where
  \<comment> \<open>what \<^verbatim>\<open>variables.update(element.metadata['variables'])\<close> adds, nothing when
      the key is absent; \<^verbatim>\<open>update\<close> with a string would add its characters\<close>
  "element_variables element =
     (case metadata element ''variables'' of
        None \<Rightarrow> {}
      | Some (MList vs) \<Rightarrow> set vs
      | Some (MStr s) \<Rightarrow> (\<lambda>c. [c]) ` set s)"

definition get_all_variables :: "PromptElement list \<Rightarrow> string set" where
  "get_all_variables elems = (\<Union>element \<in> set elems. element_variables element)"

section \<open>The block matcher of the standard library\<close>

text \<open>
  \<^verbatim>\<open>compute_similarity\<close> calls \<^verbatim>\<open>difflib.SequenceMatcher(None, a, b).ratio()\<close>. The
  matcher is Python's, not the repository's; it is modelled here from \<^verbatim>\<open>difflib.py\<close>
  (CPython 3.11) for the arguments of that call: no junk predicate, and the automatic
  junk heuristic switched on. The float \<^verbatim>\<open>2.0 * matches / length\<close> is modelled by the
  rational it rounds. Rounding to double precision is monotone and keeps 0, one half and
  1, and two different ratios of texts shorter than 33 million characters differ by more than
  the spacing of the floats below 1; so for such texts every comparison of two scores,
  and of a score with 0, 0.5 or 1, comes out on the floats as it does here. The matcher
  works on sequences of any element type, and it is modelled and verified as such.
\<close>

type_synonym block = "nat \<times> nat \<times> nat"

definition b2j :: "'a list \<Rightarrow> 'a \<Rightarrow> nat list" where
  \<comment> \<open>\<^verbatim>\<open>__chain_b\<close>: the indices of \<open>x\<close> in \<open>b\<close>, ascending; an element that fills
      more than 1\% (plus one) of a sequence of 200 or more is popular and has no entry.
      The result is what \<^verbatim>\<open>b2j.get(x, [])\<close> returns.\<close>
  "b2j b x =
     (let idxs = filter (\<lambda>j. b ! j = x) [0..<length b];
          n = length b
      in if 200 \<le> n \<and> n div 100 + 1 < length idxs then [] else idxs)"

definition isbjunk :: "'a \<Rightarrow> bool" where
  \<comment> \<open>membership in \<^verbatim>\<open>bjunk\<close>, which is empty when \<^verbatim>\<open>isjunk\<close> is \<^verbatim>\<open>None\<close>\<close>
  "isbjunk x = False"

definition j2len_get :: "(nat \<rightharpoonup> nat) \<Rightarrow> nat \<Rightarrow> nat" where
  \<comment> \<open>\<^verbatim>\<open>j2len.get(j-1, 0)\<close>; the key \<open>-1\<close> of \<open>j = 0\<close> is never in the dict\<close>
  "j2len_get j2len j =
     (if j = 0 then 0 else (case j2len (j - 1) of None \<Rightarrow> 0 | Some k \<Rightarrow> k))"

fun row_loop ::
  "nat \<Rightarrow> nat \<Rightarrow> nat \<Rightarrow> (nat \<rightharpoonup> nat) \<Rightarrow> nat list \<Rightarrow> (nat \<rightharpoonup> nat) \<times> block
     \<Rightarrow> (nat \<rightharpoonup> nat) \<times> block" where
  \<comment> \<open>\<^verbatim>\<open>for j in b2j.get(a[i], nothing)\<close>, with its \<^verbatim>\<open>continue\<close> and \<^verbatim>\<open>break\<close>\<close>
  "row_loop i blo bhi j2len [] acc = acc"
| "row_loop i blo bhi j2len (j # js) (newj2len, (besti, bestj, bestsize)) =
     (if j < blo then row_loop i blo bhi j2len js (newj2len, (besti, bestj, bestsize))
      else if bhi \<le> j then (newj2len, (besti, bestj, bestsize))
      else
        (let k = j2len_get j2len j + 1
         in row_loop i blo bhi j2len js
              (newj2len(j \<mapsto> k),
               if bestsize < k then (i + 1 - k, j + 1 - k, k) else (besti, bestj, bestsize))))"

fun rows_loop ::
  "'a list \<Rightarrow> 'a list \<Rightarrow> nat \<Rightarrow> nat \<Rightarrow> nat list \<Rightarrow> (nat \<rightharpoonup> nat) \<times> block
     \<Rightarrow> (nat \<rightharpoonup> nat) \<times> block" where
  \<comment> \<open>\<^verbatim>\<open>for i in range(alo, ahi)\<close>; the state is \<^verbatim>\<open>j2len\<close> and the best block\<close>
  "rows_loop a b blo bhi [] acc = acc"
| "rows_loop a b blo bhi (i # is) (j2len, best) =
     rows_loop a b blo bhi is (row_loop i blo bhi j2len (b2j b (a ! i)) (Map.empty, best))"

function extend_left ::
  "('a \<Rightarrow> bool) \<Rightarrow> 'a list \<Rightarrow> 'a list \<Rightarrow> nat \<Rightarrow> nat \<Rightarrow> block \<Rightarrow> block" where
  "extend_left ok a b alo blo (besti, bestj, bestsize) =
     (if alo < besti \<and> blo < bestj \<and> ok (b ! (bestj - 1)) \<and> a ! (besti - 1) = b ! (bestj - 1)
      then extend_left ok a b alo blo (besti - 1, bestj - 1, bestsize + 1)
      else (besti, bestj, bestsize))"
  by pat_completeness auto
termination
  by (relation "measure (\<lambda>(ok, a, b, alo, blo, besti, bestj, bestsize). besti)") auto

function extend_right ::
  "('a \<Rightarrow> bool) \<Rightarrow> 'a list \<Rightarrow> 'a list \<Rightarrow> nat \<Rightarrow> nat \<Rightarrow> block \<Rightarrow> block" where
  "extend_right ok a b ahi bhi (besti, bestj, bestsize) =
     (if besti + bestsize < ahi \<and> bestj + bestsize < bhi \<and> ok (b ! (bestj + bestsize))
         \<and> a ! (besti + bestsize) = b ! (bestj + bestsize)
      then extend_right ok a b ahi bhi (besti, bestj, bestsize + 1)
      else (besti, bestj, bestsize))"
  by pat_completeness auto
termination
  by (relation "measure (\<lambda>(ok, a, b, ahi, bhi, besti, bestj, bestsize). ahi - (besti + bestsize))")
     auto

declare extend_left.simps [simp del] extend_right.simps [simp del]

definition find_longest_match :: "'a list \<Rightarrow> 'a list \<Rightarrow> nat \<Rightarrow> nat \<Rightarrow> nat \<Rightarrow> nat \<Rightarrow> block" where
  "find_longest_match a b alo ahi blo bhi =
     (let best0 = snd (rows_loop a b blo bhi [alo..<ahi] (Map.empty, (alo, blo, 0)));
          best1 = extend_left (\<lambda>x. \<not> isbjunk x) a b alo blo best0;
          best2 = extend_right (\<lambda>x. \<not> isbjunk x) a b ahi bhi best1;
          best3 = extend_left isbjunk a b alo blo best2
      in extend_right isbjunk a b ahi bhi best3)"

text \<open>
  Where a block returned by \<^verbatim>\<open>find_longest_match\<close> lies: an empty block sits at
  \<open>(alo, blo)\<close>, any other inside both ranges. The loop over the queue of
  \<^verbatim>\<open>get_matching_blocks\<close> ends because of it.
\<close>

definition block_ok :: "nat \<Rightarrow> nat \<Rightarrow> nat \<Rightarrow> nat \<Rightarrow> block \<Rightarrow> bool" where
  "block_ok alo ahi blo bhi blk =
     (case blk of (i, j, k) \<Rightarrow>
        (k = 0 \<and> i = alo \<and> j = blo) \<or>
        (0 < k \<and> alo \<le> i \<and> blo \<le> j \<and> i + k \<le> ahi \<and> j + k \<le> bhi))"

definition j2len_ok :: "nat \<Rightarrow> nat \<Rightarrow> nat \<Rightarrow> (nat \<rightharpoonup> nat) \<Rightarrow> bool" where
  "j2len_ok alo blo n m = (\<forall>j k. m j = Some k \<longrightarrow> k \<le> n - alo \<and> k \<le> j + 1 - blo)"

lemma j2len_get_le:
  assumes "j2len_ok alo blo i m" "blo \<le> j"
  shows "j2len_get m j \<le> i - alo \<and> j2len_get m j \<le> j - blo"
proof (cases "j = 0")
  case True
  then show ?thesis by (simp add: j2len_get_def)
next
  case False
  show ?thesis
  proof (cases "m (j - 1)")
    case None
    with False show ?thesis by (simp add: j2len_get_def)
  next
    case (Some k)
    with assms(1) have "k \<le> i - alo" "k \<le> (j - 1) + 1 - blo"
      unfolding j2len_ok_def by blast+
    with False Some show ?thesis by (simp add: j2len_get_def)
  qed
qed

lemma row_loop_ok:
  assumes "alo \<le> i" "i < ahi" "j2len_ok alo blo i m"
  shows "j2len_ok alo blo (Suc i) new \<Longrightarrow> block_ok alo (Suc i) blo bhi best \<Longrightarrow>
         row_loop i blo bhi m js (new, best) = (new', best') \<Longrightarrow>
         j2len_ok alo blo (Suc i) new' \<and> block_ok alo (Suc i) blo bhi best'"
proof (induction js arbitrary: new best)
  case Nil
  then show ?case by simp
next
  case (Cons j js)
  obtain bi bj bs where best: "best = (bi, bj, bs)" by (cases best) auto
  show ?case
  proof (cases "j < blo")
    case True
    with Cons best show ?thesis by simp
  next
    case False
    note jblo = this
    show ?thesis
    proof (cases "bhi \<le> j")
      case True
      with Cons jblo best show ?thesis by simp
    next
      case False
      define k where "k = j2len_get m j + 1"
      from jblo have "blo \<le> j" by simp
      from j2len_get_le[OF assms(3) this] have kb: "k \<le> Suc i - alo" "k \<le> j + 1 - blo"
        using assms(1) \<open>blo \<le> j\<close> unfolding k_def by auto
      have new_ok: "j2len_ok alo blo (Suc i) (new(j \<mapsto> k))"
        using Cons.prems(1) kb unfolding j2len_ok_def by auto
      have best_ok: "block_ok alo (Suc i) blo bhi (if bs < k then (i + 1 - k, j + 1 - k, k) else (bi, bj, bs))"
        using Cons.prems(2) kb False jblo assms(1) unfolding block_ok_def best k_def by auto
      have "row_loop i blo bhi m (j # js) (new, best) =
            row_loop i blo bhi m js (new(j \<mapsto> k), if bs < k then (i + 1 - k, j + 1 - k, k) else (bi, bj, bs))"
        using jblo False unfolding best k_def by (simp add: Let_def)
      with Cons.prems(3) have "row_loop i blo bhi m js (new(j \<mapsto> k), if bs < k then (i + 1 - k, j + 1 - k, k) else (bi, bj, bs)) = (new', best')"
        by (simp only:)
      from Cons.IH[OF new_ok best_ok this] show ?thesis .
    qed
  qed
qed


lemma j2len_ok_empty: "j2len_ok alo blo n Map.empty"
  by (simp add: j2len_ok_def)

lemma block_ok_mono: "block_ok alo n blo bhi blk \<Longrightarrow> n \<le> n' \<Longrightarrow> block_ok alo n' blo bhi blk"
  by (auto simp: block_ok_def)

lemma rows_loop_ok:
  "alo \<le> i \<Longrightarrow> j2len_ok alo blo i m \<Longrightarrow> block_ok alo i blo bhi best \<Longrightarrow>
   block_ok alo (max i ahi) blo bhi (snd (rows_loop a b blo bhi [i..<ahi] (m, best)))"
proof (induction "ahi - i" arbitrary: i m best)
  case 0
  then show ?case by simp
next
  case (Suc d)
  then have lt: "i < ahi" by simp
  obtain new' best' where r: "row_loop i blo bhi m (b2j b (a ! i)) (Map.empty, best) = (new', best')"
    by (cases "row_loop i blo bhi m (b2j b (a ! i)) (Map.empty, best)") auto
  have "j2len_ok alo blo (Suc i) new' \<and> block_ok alo (Suc i) blo bhi best'"
    using row_loop_ok[OF Suc.prems(1) lt Suc.prems(2) j2len_ok_empty _ r]
          block_ok_mono[OF Suc.prems(3), of "Suc i"] by simp
  moreover have "d = ahi - Suc i" using Suc.hyps(2) by simp
  moreover have "alo \<le> Suc i" using Suc.prems(1) by simp
  ultimately have "block_ok alo (max (Suc i) ahi) blo bhi (snd (rows_loop a b blo bhi [Suc i..<ahi] (new', best')))"
    using Suc.hyps(1) by blast
  moreover have "max (Suc i) ahi = max i ahi" using lt by simp
  ultimately show ?case using lt r by (simp add: upt_conv_Cons)
qed

lemma extend_left_ok:
  "block_ok alo ahi blo bhi blk \<Longrightarrow> block_ok alo ahi blo bhi (extend_left ok a b alo blo blk)"
proof (induction ok a b alo blo blk rule: extend_left.induct)
  case (1 ok a b alo blo besti bestj bestsize)
  show ?case
  proof (cases "alo < besti \<and> blo < bestj \<and> ok (b ! (bestj - 1)) \<and> a ! (besti - 1) = b ! (bestj - 1)")
    case True
    then have "block_ok alo ahi blo bhi (besti - 1, bestj - 1, bestsize + 1)"
      using "1.prems" by (auto simp: block_ok_def)
    from "1.IH"[OF True this] True show ?thesis
      by (subst extend_left.simps) simp
  next
    case False
    with "1.prems" show ?thesis
      by (subst extend_left.simps) auto
  qed
qed

lemma extend_right_ok:
  "block_ok alo ahi blo bhi blk \<Longrightarrow> block_ok alo ahi blo bhi (extend_right ok a b ahi bhi blk)"
proof (induction ok a b ahi bhi blk rule: extend_right.induct)
  case (1 ok a b ahi bhi besti bestj bestsize)
  show ?case
  proof (cases "besti + bestsize < ahi \<and> bestj + bestsize < bhi \<and> ok (b ! (bestj + bestsize))
         \<and> a ! (besti + bestsize) = b ! (bestj + bestsize)")
    case True
    then have "block_ok alo ahi blo bhi (besti, bestj, bestsize + 1)"
      using "1.prems" by (auto simp: block_ok_def)
    from "1.IH"[OF True this] True show ?thesis
      by (subst extend_right.simps) simp
  next
    case False
    with "1.prems" show ?thesis
      by (subst extend_right.simps) auto
  qed
qed

lemma find_longest_match_ok:
  "block_ok alo ahi blo bhi (find_longest_match a b alo ahi blo bhi)"
proof -
  have "block_ok alo alo blo bhi (alo, blo, 0)" by (simp add: block_ok_def)
  from rows_loop_ok[OF le_refl j2len_ok_empty this, of ahi a b]
  have 0: "block_ok alo (max alo ahi) blo bhi (snd (rows_loop a b blo bhi [alo..<ahi] (Map.empty, (alo, blo, 0))))" .
  have "block_ok alo ahi blo bhi (snd (rows_loop a b blo bhi [alo..<ahi] (Map.empty, (alo, blo, 0))))"
  proof (cases "alo \<le> ahi")
    case True
    with 0 show ?thesis by (simp add: max_def)
  next
    case False
    then show ?thesis by (simp add: block_ok_def)
  qed
  then show ?thesis
    unfolding find_longest_match_def Let_def
    by (intro extend_right_ok extend_left_ok)
qed

fun queue_size :: "(nat \<times> nat \<times> nat \<times> nat) list \<Rightarrow> nat" where
  "queue_size [] = 0"
| "queue_size ((alo, ahi, blo, bhi) # queue) = 2 * (ahi - alo) + 1 + queue_size queue"

text \<open>
  The loop \<^verbatim>\<open>while queue\<close> of \<^verbatim>\<open>get_matching_blocks\<close>. The Python list
  \<^verbatim>\<open>queue\<close> is used as a stack; it is kept here with its last element first, so that
  \<^verbatim>\<open>pop\<close> takes the head and \<^verbatim>\<open>append\<close> puts one in front.
\<close>

function blocks_loop ::
  "'a list \<Rightarrow> 'a list \<Rightarrow> (nat \<times> nat \<times> nat \<times> nat) list \<Rightarrow> block list \<Rightarrow> block list" where
  "blocks_loop a b [] matching_blocks = matching_blocks"
| "blocks_loop a b ((alo, ahi, blo, bhi) # queue) matching_blocks =
     (case find_longest_match a b alo ahi blo bhi of (i, j, k) \<Rightarrow>
        if k \<noteq> 0 then
          (let queue1 = (if alo < i \<and> blo < j then (alo, i, blo, j) # queue else queue);
               queue2 = (if i + k < ahi \<and> j + k < bhi then (i + k, ahi, j + k, bhi) # queue1
                         else queue1)
           in blocks_loop a b queue2 (matching_blocks @ [(i, j, k)]))
        else blocks_loop a b queue matching_blocks)"
  by pat_completeness auto
termination
proof (relation "measure (\<lambda>(a, b, queue, matching_blocks). queue_size queue)", goal_cases)
  case 1
  show ?case by simp
next
  case (2 a b alo ahi blo bhi queue matching_blocks i y j k queue1 queue2)
  have "find_longest_match a b alo ahi blo bhi = (i, j, k)"
    using 2(1,2) by simp
  with find_longest_match_ok[of alo ahi blo bhi a b]
  have "block_ok alo ahi blo bhi (i, j, k)" by simp
  with 2(3) have "alo \<le> i" "i + k \<le> ahi" "0 < k"
    by (auto simp: block_ok_def)
  then show ?case using 2(4,5) by auto
next
  case 3
  then show ?case by simp
qed

declare blocks_loop.simps [simp del]

fun collapse :: "block list \<Rightarrow> block \<Rightarrow> block list \<Rightarrow> block list \<times> block" where
  \<comment> \<open>the loop that merges adjacent blocks; the state is \<open>(i1, j1, k1)\<close> and
      \<^verbatim>\<open>non_adjacent\<close>\<close>
  "collapse [] cur non_adjacent = (non_adjacent, cur)"
| "collapse ((i2, j2, k2) # rest) (i1, j1, k1) non_adjacent =
     (if i1 + k1 = i2 \<and> j1 + k1 = j2 then collapse rest (i1, j1, k1 + k2) non_adjacent
      else collapse rest (i2, j2, k2)
             (if k1 \<noteq> 0 then non_adjacent @ [(i1, j1, k1)] else non_adjacent))"

definition get_matching_blocks :: "'a list \<Rightarrow> 'a list \<Rightarrow> block list" where
  "get_matching_blocks a b =
     (let la = length a; lb = length b;
          matching_blocks = sort (blocks_loop a b [(0, la, 0, lb)] [])
      in case collapse matching_blocks (0, 0, 0) [] of
           (non_adjacent, (i1, j1, k1)) \<Rightarrow>
             (if k1 \<noteq> 0 then non_adjacent @ [(i1, j1, k1)] else non_adjacent) @ [(la, lb, 0)])"

definition calculate_ratio :: "nat \<Rightarrow> nat \<Rightarrow> rat" where
  "calculate_ratio matches len = (if len \<noteq> 0 then 2 * of_nat matches / of_nat len else 1)"

definition ratio :: "'a list \<Rightarrow> 'a list \<Rightarrow> rat" where
  "ratio a b =
     calculate_ratio (sum_list (map (\<lambda>(i, j, k). k) (get_matching_blocks a b)))
                     (length a + length b)"

section \<open>The differ (\<^verbatim>\<open>differ.py\<close>)\<close>

definition compute_similarity :: "string \<Rightarrow> string \<Rightarrow> rat" where
  "compute_similarity old_text new_text =
     (if old_text = [] \<and> new_text = [] then 1
      else if old_text = [] \<or> new_text = [] then 0
      else ratio old_text new_text)"

datatype ChangeType = ADDED | REMOVED | MODIFIED | UNCHANGED

record ElementDiff =
  change_type :: ChangeType
  element_type :: PromptType
  old_content :: "string option"
  new_content :: "string option"
  old_line :: "nat option"
  new_line :: "nat option"
  details :: "string \<rightharpoonup> rat"

record DiffResult =
  old_path :: string
  new_path :: string
  element_diffs :: "ElementDiff list"
  old_variables :: "string set"
  new_variables :: "string set"
  added_variables :: "string set"
  removed_variables :: "string set"
  similarity :: rat

definition has_changes :: "DiffResult \<Rightarrow> bool" where
  "has_changes r = list_ex (\<lambda>d. change_type d \<noteq> UNCHANGED) (element_diffs r)"

subsection \<open>Alignment\<close>

type_synonym aligned_pair = "PromptElement option \<times> PromptElement option"

record astate =
  aligned :: "aligned_pair list"
  old_used :: "nat set"
  new_used :: "nat set"

definition filtered :: "PromptElement list \<Rightarrow> (nat \<times> PromptElement) list" where
  \<comment> \<open>\<^verbatim>\<open>[(i, e) for i, e in enumerate(elements) if e.type != PromptType.WHITESPACE]\<close>\<close>
  "filtered elems = filter (\<lambda>(i, e). etype e \<noteq> WHITESPACE) (enumerate 0 elems)"

definition match_pair :: "nat \<times> PromptElement \<Rightarrow> nat \<times> PromptElement \<Rightarrow> astate \<Rightarrow> astate" where
  \<comment> \<open>the three statements that record a match\<close>
  "match_pair old new st =
     st\<lparr>aligned := aligned st @ [(Some (snd old), Some (snd new))],
        old_used := insert (fst old) (old_used st),
        new_used := insert (fst new) (new_used st)\<rparr>"

fun exact_scan :: "nat \<times> PromptElement \<Rightarrow> (nat \<times> PromptElement) list \<Rightarrow> astate \<Rightarrow> astate" where
  \<comment> \<open>the inner loop of the first pass, left at the first match by \<^verbatim>\<open>break\<close>\<close>
  "exact_scan new [] st = st"
| "exact_scan new (old # rest) st =
     (if fst old \<in> old_used st then exact_scan new rest st
      else if etype (snd old) = etype (snd new) \<and> content (snd old) = content (snd new)
      then match_pair old new st
      else exact_scan new rest st)"

fun exact_pass :: "(nat \<times> PromptElement) list \<Rightarrow> (nat \<times> PromptElement) list \<Rightarrow> astate \<Rightarrow> astate" where
  "exact_pass old_filtered [] st = st"
| "exact_pass old_filtered (new # rest) st =
     exact_pass old_filtered rest (exact_scan new old_filtered st)"

fun best_scan ::
  "PromptElement \<Rightarrow> nat set \<Rightarrow> (nat \<times> PromptElement) list
     \<Rightarrow> (nat \<times> PromptElement) option \<times> rat \<Rightarrow> (nat \<times> PromptElement) option \<times> rat" where
  \<comment> \<open>the inner loop of the second pass; the state is \<^verbatim>\<open>best_match\<close> and
      \<^verbatim>\<open>best_score\<close>\<close>
  "best_scan new_elem used [] best = best"
| "best_scan new_elem used (old # rest) (best_match, best_score) =
     (if fst old \<in> used then best_scan new_elem used rest (best_match, best_score)
      else if etype (snd old) = etype new_elem then
        (let score = compute_similarity (content (snd old)) (content new_elem)
         in if best_score < score then best_scan new_elem used rest (Some old, score)
            else best_scan new_elem used rest (best_match, best_score))
      else best_scan new_elem used rest (best_match, best_score))"

definition similar_step ::
  "(nat \<times> PromptElement) list \<Rightarrow> nat \<times> PromptElement \<Rightarrow> astate \<Rightarrow> astate" where
  \<comment> \<open>one round of the second pass; 0.5 is the threshold \<^verbatim>\<open>best_score\<close> starts at\<close>
  "similar_step old_filtered new st =
     (if fst new \<in> new_used st then st
      else (case fst (best_scan (snd new) (old_used st) old_filtered (None, 1 / 2)) of
              None \<Rightarrow> st
            | Some old \<Rightarrow> match_pair old new st))"

fun similar_pass :: "(nat \<times> PromptElement) list \<Rightarrow> (nat \<times> PromptElement) list \<Rightarrow> astate \<Rightarrow> astate" where
  "similar_pass old_filtered [] st = st"
| "similar_pass old_filtered (new # rest) st =
     similar_pass old_filtered rest (similar_step old_filtered new st)"

definition removed_pairs :: "(nat \<times> PromptElement) list \<Rightarrow> nat set \<Rightarrow> aligned_pair list" where
  "removed_pairs old_filtered used =
     map (\<lambda>old. (Some (snd old), None)) (filter (\<lambda>old. fst old \<notin> used) old_filtered)"

definition added_pairs :: "(nat \<times> PromptElement) list \<Rightarrow> nat set \<Rightarrow> aligned_pair list" where
  "added_pairs new_filtered used =
     map (\<lambda>new. (None, Some (snd new))) (filter (\<lambda>new. fst new \<notin> used) new_filtered)"

definition align_elements :: "PromptElement list \<Rightarrow> PromptElement list \<Rightarrow> aligned_pair list" where
  "align_elements old_elements new_elements =
     (let old_filtered = filtered old_elements;
          new_filtered = filtered new_elements;
          st0 = \<lparr>aligned = [], old_used = {}, new_used = {}\<rparr>;
          st1 = exact_pass old_filtered new_filtered st0;
          st2 = similar_pass old_filtered new_filtered st1
      in aligned st2 @ removed_pairs old_filtered (old_used st2)
                     @ added_pairs new_filtered (new_used st2))"

subsection \<open>Building the diff\<close>

datatype py_error = AttributeError

fun diff_pair :: "aligned_pair \<Rightarrow> py_error + ElementDiff" where
  \<comment> \<open>the body of the loop of \<^verbatim>\<open>diff_prompts\<close>; with both sides \<^verbatim>\<open>None\<close> the first
      branch reads \<^verbatim>\<open>new_elem.type\<close> and raises\<close>
  "diff_pair (None, None) = Inl AttributeError"
| "diff_pair (None, Some new_elem) =
     Inr \<lparr>change_type = ADDED, element_type = etype new_elem,
          old_content = None, new_content = Some (content new_elem),
          old_line = None, new_line = Some (line_start new_elem), details = Map.empty\<rparr>"
| "diff_pair (Some old_elem, None) =
     Inr \<lparr>change_type = REMOVED, element_type = etype old_elem,
          old_content = Some (content old_elem), new_content = None,
          old_line = Some (line_start old_elem), new_line = None, details = Map.empty\<rparr>"
| "diff_pair (Some old_elem, Some new_elem) =
     (if content old_elem = content new_elem then
        Inr \<lparr>change_type = UNCHANGED, element_type = etype old_elem,
             old_content = Some (content old_elem), new_content = Some (content new_elem),
             old_line = Some (line_start old_elem), new_line = Some (line_start new_elem),
             details = Map.empty\<rparr>
      else
        Inr \<lparr>change_type = MODIFIED, element_type = etype old_elem,
             old_content = Some (content old_elem), new_content = Some (content new_elem),
             old_line = Some (line_start old_elem), new_line = Some (line_start new_elem),
             details = [''similarity'' \<mapsto>
                          compute_similarity (content old_elem) (content new_elem)]\<rparr>)"

fun build_diffs :: "aligned_pair list \<Rightarrow> ElementDiff list \<Rightarrow> py_error + ElementDiff list" where
  \<comment> \<open>the loop over the aligned pairs; \<open>ds\<close> is the list \<^verbatim>\<open>element_diffs\<close> so far\<close>
  "build_diffs [] ds = Inr ds"
| "build_diffs (p # ps) ds =
     (case diff_pair p of
        Inl e \<Rightarrow> Inl e
      | Inr d \<Rightarrow> build_diffs ps (ds @ [d]))"

definition diff_prompts :: "string \<Rightarrow> string \<Rightarrow> string \<Rightarrow> string \<Rightarrow> py_error + DiffResult" where
  "diff_prompts old_text new_text old_path' new_path' =
     (let old_elements = parse_prompt old_text;
          new_elements = parse_prompt new_text;
          old_vars = get_all_variables old_elements;
          new_vars = get_all_variables new_elements;
          pairs = align_elements old_elements new_elements
      in case build_diffs pairs [] of
           Inl e \<Rightarrow> Inl e
         | Inr ds \<Rightarrow>
             Inr \<lparr>old_path = old_path', new_path = new_path', element_diffs = ds,
                  old_variables = old_vars, new_variables = new_vars,
                  added_variables = new_vars - old_vars,
                  removed_variables = old_vars - new_vars,
                  similarity = compute_similarity old_text new_text\<rparr>)"

section \<open>Comparing two empty texts\<close>

lemma parse_prompt_empty: "parse_prompt [] = []"
  by code_simp

lemma align_elements_empty: "align_elements [] [] = []"
  by (simp add: align_elements_def filtered_def enumerate_eq_zip removed_pairs_def added_pairs_def)

text \<open>
  Claim C10. Comparing the empty text with the empty text, under any two labels, returns
  a result (no exception) whose sequence of element diffs is empty, whose four variable
  sets are empty and whose overall similarity is 1; \<^verbatim>\<open>has_changes\<close> is false on it.
\<close>

theorem diff_prompts_empty:
  "diff_prompts [] [] old_label new_label =
     Inr \<lparr>old_path = old_label, new_path = new_label, element_diffs = [],
          old_variables = {}, new_variables = {}, added_variables = {},
          removed_variables = {}, similarity = 1\<rparr>
   \<and> (case diff_prompts [] [] old_label new_label of
        Inl e \<Rightarrow> False
      | Inr r \<Rightarrow> \<not> has_changes r)"
  by (simp add: diff_prompts_def parse_prompt_empty align_elements_empty get_all_variables_def
        compute_similarity_def has_changes_def)

section \<open>The scenario of the instruction followed by a blank line\<close>

definition scenario_text :: string where
  "scenario_text = ''You are a helpful bot.\<newline>\<newline>{{name}}, please summarize.''"

lemma scenario_lines:
  "split_on newline scenario_text =
     [''You are a helpful bot.'', [], ''{{name}}, please summarize.'']"
  unfolding scenario_text_def by code_simp

lemma scenario_syntax: "detect_template_syntax scenario_text = ''jinja2''"
  unfolding scenario_text_def by code_simp

lemma scenario_line0:
  "strip ''You are a helpful bot.'' = ''You are a helpful bot.''"
  "\<not> startswith ''You are a helpful bot.'' ''```''"
  "is_role_marker ''You are a helpful bot.'' = None"
  "\<not> startswith ''You are a helpful bot.'' ''#''"
  "\<not> startswith ''You are a helpful bot.'' ''//''"
  "\<not> is_example_marker ''You are a helpful bot.''"
  "is_instruction_line ''You are a helpful bot.''"
  by code_simp+

lemma blank_line:
  "strip [] = []"
  "\<not> startswith [] ''```''"
  "is_role_marker [] = None"
  "\<not> startswith [] ''#''"
  "\<not> startswith [] ''//''"
  "\<not> is_example_marker []"
  "\<not> is_instruction_line []"
  by code_simp+

lemma scenario_line2:
  "strip ''{{name}}, please summarize.'' = ''{{name}}, please summarize.''"
  "\<not> startswith ''{{name}}, please summarize.'' ''```''"
  "is_role_marker ''{{name}}, please summarize.'' = None"
  "\<not> startswith ''{{name}}, please summarize.'' ''#''"
  "\<not> startswith ''{{name}}, please summarize.'' ''//''"
  "\<not> is_example_marker ''{{name}}, please summarize.''"
  "\<not> is_instruction_line ''{{name}}, please summarize.''"
  by code_simp+

lemma scenario_variables:
  "map fst (extract_variables scenario_text) = [''name'', ''name'', ''name'']"
  unfolding scenario_text_def by code_simp

lemma scenario_state:
  "parse_lines syn 0 [''You are a helpful bot.'', [], ''{{name}}, please summarize.''] init_pstate =
     \<lparr>elements = [], in_example = False, in_code_block = False,
      current_element_lines = [''You are a helpful bot.'', [], ''{{name}}, please summarize.''],
      current_element_type = Some INSTRUCTION, element_start_line = 0\<rparr>"
  by (simp add: parse_line_def init_pstate_def scenario_line0 blank_line scenario_line2
        flush_element_def append_line_def)

text \<open>
  Claim C1, as the code has it. The scenario text is segmented into one element, not
  three: the blank line is appended to the open instruction run, and the third line,
  which is no instruction, joins the same run because a run is open. The element is an
  Instruction over lines 0 to 2 whose content is the whole text; the jinja2, mustache and
  fstring patterns each find \<^verbatim>\<open>name\<close>, so its variables are that name three times.
\<close>

theorem parse_prompt_scenario:
  "parse_prompt scenario_text =
     [\<lparr>etype = INSTRUCTION, content = scenario_text, line_start = 0, line_end = 2,
       raw = scenario_text,
       metadata = [''syntax'' \<mapsto> MStr ''jinja2'',
                   ''variables'' \<mapsto> MList [''name'', ''name'', ''name'']]\<rparr>]"
proof -
  have v: "extract_variables scenario_text \<noteq> []"
    using scenario_variables by auto
  show ?thesis
    unfolding parse_prompt_def scenario_lines scenario_syntax Let_def scenario_state
    using v scenario_variables
    by (simp add: flush_element_def annotate_def scenario_text_def newline_def Let_def)
qed

text \<open>
  Claim C1, as the specification states it, fails: the segmentation of the scenario text
  does not have three elements, and its only element is an Instruction.
\<close>

theorem parse_prompt_scenario_not_three:
  "length (parse_prompt scenario_text) \<noteq> 3 \<and>
   map etype (parse_prompt scenario_text) = [INSTRUCTION]"
  unfolding scenario_text_def by code_simp

section \<open>Blank lines\<close>

text \<open>
  Claim C2, as the code has it. A blank line (one that strips to the empty string) met
  inside a fenced block is appended to the block and changes nothing else. Met outside,
  it is appended to the open accumulation when there is one: nothing is flushed and no
  Whitespace element is emitted. With no accumulation open it is emitted as a
  zero-content Whitespace element when at least one element exists already, and dropped
  otherwise. Outside a fenced block the inside-example flag is cleared in every case.
\<close>

theorem parse_line_blank:
  assumes "strip line = []"
  shows "parse_line syntax i line st =
     (if in_code_block st then append_line line st
      else (if current_element_lines st \<noteq> [] then append_line line st
            else if elements st \<noteq> []
                 then emit \<lparr>etype = WHITESPACE, content = [], line_start = i, line_end = i,
                            raw = line, metadata = Map.empty\<rparr> st
                 else st)\<lparr>in_example := False\<rparr>)"
  using assms by (simp add: parse_line_def blank_line single_line_element_def)

theorem parse_line_blank_witness:
  "strip ''  '' = [] \<and>
   in_example (parse_line ''plain'' 1 ''  '' (parse_line ''plain'' 0 ''input:'' init_pstate)) = False \<and>
   elements (parse_line ''plain'' 1 ''  '' (parse_line ''plain'' 0 ''input:'' init_pstate)) = [] \<and>
   current_element_lines (parse_line ''plain'' 1 ''  '' (parse_line ''plain'' 0 ''input:'' init_pstate))
     = [''input:'', ''  '']"
proof -
  have s: "strip ''  '' = []" by code_simp
  have st: "parse_line ''plain'' 0 ''input:'' init_pstate =
     \<lparr>elements = [], in_example = True, in_code_block = False,
      current_element_lines = [''input:''], current_element_type = Some EXAMPLE,
      element_start_line = 0\<rparr>"
  proof -
    have "strip ''input:'' = ''input:''" "\<not> startswith ''input:'' ''```''"
      "is_role_marker ''input:'' = None" "\<not> startswith ''input:'' ''#''"
      "\<not> startswith ''input:'' ''//''" "is_example_marker ''input:''"
      by code_simp+
    then show ?thesis
      by (simp add: parse_line_def init_pstate_def flush_element_def append_line_def)
  qed
  show ?thesis
    using parse_line_blank[OF s, of "''plain''" 1 "parse_line ''plain'' 0 ''input:'' init_pstate"] s
    by (simp add: st append_line_def)
qed

text \<open>
  Claim C2, as the specification states it, fails. After the line \<^verbatim>\<open>a\<close> a Text run is
  open; the blank line that follows flushes nothing and emits nothing, it is appended to
  the run. The text \<^verbatim>\<open>a\<close>, blank, \<^verbatim>\<open>b\<close> is therefore one Text element, with no
  Whitespace element.
\<close>

theorem blank_line_not_flushed:
  "elements (parse_lines ''plain'' 0 [''a'', []] init_pstate) = [] \<and>
   current_element_lines (parse_lines ''plain'' 0 [''a'', []] init_pstate) = [''a'', []] \<and>
   map etype (parse_prompt ''a\<newline>\<newline>b'') = [TEXT]"
  by code_simp

section \<open>Where the detected syntax is attached\<close>

text \<open>
  What the code stores under the key \<^verbatim>\<open>syntax\<close>, by kind of element: the flushed
  kinds carry the detected syntax, the single-line kinds do not have the key, and no
  element of kind Variable is ever built.
\<close>

definition syntax_as_built :: "string \<Rightarrow> PromptElement \<Rightarrow> bool" where
  "syntax_as_built syntax e =
     (case etype e of
        TEXT \<Rightarrow> metadata e ''syntax'' = Some (MStr syntax)
      | INSTRUCTION \<Rightarrow> metadata e ''syntax'' = Some (MStr syntax)
      | EXAMPLE \<Rightarrow> metadata e ''syntax'' = Some (MStr syntax)
      | ROLE \<Rightarrow> metadata e ''syntax'' = None
      | COMMENT \<Rightarrow> metadata e ''syntax'' = None
      | WHITESPACE \<Rightarrow> metadata e ''syntax'' = None
      | VARIABLE \<Rightarrow> False)"

text \<open>
  The invariant of the loop: the elements emitted so far are as described, and the
  declared kind of the buffer, if any, is Text, Instruction or Example.
\<close>

definition seg_inv :: "string \<Rightarrow> pstate \<Rightarrow> bool" where
  "seg_inv syntax st =
     (list_all (syntax_as_built syntax) (elements st) \<and>
      current_element_type st \<in> {None, Some TEXT, Some INSTRUCTION, Some EXAMPLE})"

lemma seg_inv_init: "seg_inv syntax init_pstate"
  by (simp add: seg_inv_def init_pstate_def)

lemma seg_inv_flush: "seg_inv syntax st \<Longrightarrow> seg_inv syntax (flush_element syntax st)"
  by (auto simp: seg_inv_def flush_element_def syntax_as_built_def Let_def)

lemma seg_inv_append: "seg_inv syntax st \<Longrightarrow> seg_inv syntax (append_line line st)"
  by (simp add: seg_inv_def append_line_def)

lemma seg_inv_emit:
  "seg_inv syntax st \<Longrightarrow> syntax_as_built syntax e \<Longrightarrow> seg_inv syntax (emit e st)"
  by (simp add: seg_inv_def emit_def)

lemma seg_inv_fields:
  "seg_inv syntax st \<Longrightarrow> seg_inv syntax (st\<lparr>in_example := x\<rparr>)"
  "seg_inv syntax st \<Longrightarrow> seg_inv syntax (st\<lparr>in_code_block := y\<rparr>)"
  "seg_inv syntax st \<Longrightarrow> seg_inv syntax (st\<lparr>element_start_line := z\<rparr>)"
  "seg_inv syntax st \<Longrightarrow> t \<in> {TEXT, INSTRUCTION, EXAMPLE} \<Longrightarrow>
     seg_inv syntax (st\<lparr>current_element_type := Some t\<rparr>)"
  by (auto simp: seg_inv_def)

lemma single_line_as_built:
  "syntax_as_built syntax (single_line_element ROLE r i line [''role'' \<mapsto> v])"
  "syntax_as_built syntax (single_line_element COMMENT c i line Map.empty)"
  "syntax_as_built syntax (single_line_element WHITESPACE c i line Map.empty)"
  by (simp_all add: syntax_as_built_def single_line_element_def)

lemma seg_inv_parse_line:
  assumes "seg_inv syntax st"
  shows "seg_inv syntax (parse_line syntax i line st)"
  unfolding parse_line_def Let_def
  using assms
  by (auto split: option.splits
      intro!: seg_inv_flush seg_inv_append seg_inv_emit seg_inv_fields single_line_as_built)

lemma seg_inv_parse_lines:
  "seg_inv syntax st \<Longrightarrow> seg_inv syntax (parse_lines syntax i lines st)"
  by (induction lines arbitrary: i st) (simp_all add: seg_inv_parse_line)

lemma annotate_as_built: "syntax_as_built syntax e \<Longrightarrow> syntax_as_built syntax (annotate e)"
  by (auto simp: annotate_def syntax_as_built_def Let_def split: PromptType.splits)

lemma syntax_as_built_parse_prompt:
  "list_all (syntax_as_built (detect_template_syntax text)) (parse_prompt text)"
proof -
  have "seg_inv (detect_template_syntax text)
          (flush_element (detect_template_syntax text)
             (parse_lines (detect_template_syntax text) 0 (split_on newline text) init_pstate))"
    by (intro seg_inv_flush seg_inv_parse_lines seg_inv_init)
  then show ?thesis
    by (auto simp: parse_prompt_def Let_def seg_inv_def list_all_iff annotate_as_built)
qed

text \<open>
  Claim C4, as the code has it. For every text, the syntax detected for the whole
  document is stored under \<^verbatim>\<open>syntax\<close> in the metadata of every Text, Instruction and
  Example element of its segmentation, and the metadata of every Role, Comment and
  Whitespace element has no such key.
\<close>

theorem syntax_on_flushed_elements:
  "\<forall>e \<in> set (parse_prompt text).
     (etype e \<in> {TEXT, INSTRUCTION, EXAMPLE} \<longrightarrow>
        metadata e ''syntax'' = Some (MStr (detect_template_syntax text))) \<and>
     (etype e \<in> {ROLE, COMMENT, WHITESPACE} \<longrightarrow> metadata e ''syntax'' = None)"
  using syntax_as_built_parse_prompt[of "text"]
  by (auto simp: list_all_iff syntax_as_built_def split: PromptType.splits)

definition mixed_text :: string where
  "mixed_text = ''system: Hello\<newline># note\<newline>\<newline>Hi {{name}}''"

theorem syntax_on_flushed_elements_witness:
  "etype (parse_prompt mixed_text ! 3) = TEXT \<and>
   metadata (parse_prompt mixed_text ! 3) ''syntax'' = Some (MStr ''jinja2'') \<and>
   etype (parse_prompt mixed_text ! 1) = COMMENT \<and>
   metadata (parse_prompt mixed_text ! 1) ''syntax'' = None"
proof -
  have len: "length (parse_prompt mixed_text) = 4"
    unfolding mixed_text_def by code_simp
  have ty: "etype (parse_prompt mixed_text ! 3) = TEXT" "etype (parse_prompt mixed_text ! 1) = COMMENT"
    unfolding mixed_text_def by code_simp+
  have syn: "detect_template_syntax mixed_text = ''jinja2''"
    unfolding mixed_text_def by code_simp
  have "parse_prompt mixed_text ! 3 \<in> set (parse_prompt mixed_text)"
       "parse_prompt mixed_text ! 1 \<in> set (parse_prompt mixed_text)"
    using len by simp_all
  with syntax_on_flushed_elements[of mixed_text] ty syn show ?thesis
    by auto
qed

text \<open>
  Claim C4, as the specification states it, fails: the Role, the Comment and the
  Whitespace element of this text carry no syntax.
\<close>

theorem syntax_not_on_every_element:
  "map etype (parse_prompt mixed_text) = [ROLE, COMMENT, WHITESPACE, TEXT] \<and>
   metadata (parse_prompt mixed_text ! 0) ''syntax'' = None \<and>
   metadata (parse_prompt mixed_text ! 1) ''syntax'' = None \<and>
   metadata (parse_prompt mixed_text ! 2) ''syntax'' = None"
  unfolding mixed_text_def by code_simp

section \<open>Fenced blocks that are never closed\<close>


lemma flush_fields [simp]:
  "in_code_block (flush_element syntax st) = in_code_block st"
  "in_example (flush_element syntax st) = in_example st"
  "element_start_line (flush_element syntax st) = element_start_line st"
  "current_element_lines (flush_element syntax st) = []"
  "current_element_type (flush_element syntax st) = (if current_element_lines st = [] then current_element_type st else None)"
  by (simp_all add: flush_element_def Let_def)

lemma flush_in_code_block [simp]:
  "flush_element syntax (st\<lparr>in_code_block := b\<rparr>) = (flush_element syntax st)\<lparr>in_code_block := b\<rparr>"
  by (simp add: flush_element_def Let_def)

lemma append_fields [simp]:
  "in_code_block (append_line l st) = in_code_block st"
  "in_example (append_line l st) = in_example st"
  "element_start_line (append_line l st) = element_start_line st"
  "current_element_lines (append_line l st) = current_element_lines st @ [l]"
  "current_element_type (append_line l st) = current_element_type st"
  "elements (append_line l st) = elements st"
  by (simp_all add: append_line_def)

lemma emit_fields [simp]:
  "in_code_block (emit e st) = in_code_block st"
  "in_example (emit e st) = in_example st"
  "element_start_line (emit e st) = element_start_line st"
  "current_element_lines (emit e st) = current_element_lines st"
  "current_element_type (emit e st) = current_element_type st"
  "elements (emit e st) = elements st @ [e]"
  by (simp_all add: emit_def)













lemma annotate_fields [simp]:
  "etype (annotate e) = etype e"
  "content (annotate e) = content e"
  "line_start (annotate e) = line_start e"
  "line_end (annotate e) = line_end e"
  "raw (annotate e) = raw e"
  by (simp_all add: annotate_def Let_def)




section \<open>Alignment pairs every element that is not whitespace\<close>

text \<open>
  A pair of the aligner has an old side, a new side or both. A scan of either pass
  changes nothing or records one match, of an old element that is in the scanned list
  and was not used. The sides recorded so far are therefore the elements whose indices
  are marked used, each once.
\<close>

definition one_sided :: "aligned_pair \<Rightarrow> bool" where
  "one_sided p = (fst p \<noteq> None \<or> snd p \<noteq> None)"

lemma aligned_match_pair [simp]:
  "aligned (match_pair old new st) = aligned st @ [(Some (snd old), Some (snd new))]"
  "old_used (match_pair old new st) = insert (fst old) (old_used st)"
  "new_used (match_pair old new st) = insert (fst new) (new_used st)"
  by (simp_all add: match_pair_def)

lemma exact_scan_cases:
  "exact_scan new olds st = st \<or>
   (\<exists>old \<in> set olds. fst old \<notin> old_used st \<and> exact_scan new olds st = match_pair old new st)"
  by (induction olds) auto

lemma best_scan_cases:
  "fst (best_scan new_elem used olds (bm, bs)) = bm \<or>
   (\<exists>old \<in> set olds. fst old \<notin> used \<and> fst (best_scan new_elem used olds (bm, bs)) = Some old)"
proof (induction olds arbitrary: bm bs)
  case Nil
  then show ?case by simp
next
  case (Cons old olds)
  show ?case
    using Cons.IH[of bm bs] Cons.IH[of "Some old" "compute_similarity (content (snd old)) (content new_elem)"]
    by (auto simp: Let_def)
qed

lemma similar_step_cases:
  "similar_step olds new st = st \<or>
   (\<exists>old \<in> set olds. fst old \<notin> old_used st \<and> fst new \<notin> new_used st \<and>
      similar_step olds new st = match_pair old new st)"
  using best_scan_cases[of "snd new" "old_used st" olds None "1 / 2"]
  by (auto simp: similar_step_def split: option.splits)


lemma map_filter_append:
  "List.map_filter f (xs @ ys) = List.map_filter f xs @ List.map_filter f ys"
  by (simp add: List.map_filter_def)

lemma mset_used_insert:
  "distinct (map fst xs) \<Longrightarrow> x \<in> set xs \<Longrightarrow> fst x \<notin> U \<Longrightarrow>
   mset (map snd (filter (\<lambda>p. fst p \<in> insert (fst x) U) xs)) =
     add_mset (snd x) (mset (map snd (filter (\<lambda>p. fst p \<in> U) xs)))"
proof (induction xs)
  case Nil
  then show ?case by simp
next
  case (Cons y ys)
  show ?case
  proof (cases "y = x")
    case True
    have "fst x \<notin> fst ` set ys" using Cons.prems(1) True by simp
    then have "\<forall>z \<in> set ys. fst z \<noteq> fst x" by (metis imageI)
    then have "filter (\<lambda>p. fst p \<in> insert (fst x) U) ys = filter (\<lambda>p. fst p \<in> U) ys"
      by (intro filter_cong) auto
    with True Cons.prems(3) show ?thesis by simp
  next
    case False
    then have "x \<in> set ys" using Cons.prems(2) by simp
    moreover have "fst y \<notin> fst ` set ys" using Cons.prems(1) by simp
    then have "fst y \<noteq> fst x" using \<open>x \<in> set ys\<close> by (metis imageI)
    ultimately show ?thesis using Cons by auto
  qed
qed

definition side_inv ::
  "(nat \<times> PromptElement) list \<Rightarrow> (nat \<times> PromptElement) list \<Rightarrow> astate \<Rightarrow> bool" where
  "side_inv olds news st =
     (mset (List.map_filter fst (aligned st)) =
        mset (map snd (filter (\<lambda>p. fst p \<in> old_used st) olds)) \<and>
      mset (List.map_filter snd (aligned st)) =
        mset (map snd (filter (\<lambda>n. fst n \<in> new_used st) news)) \<and>
      list_all one_sided (aligned st))"

lemma side_inv_match_pair:
  assumes "side_inv olds news st" "distinct (map fst olds)" "distinct (map fst news)"
    "old \<in> set olds" "fst old \<notin> old_used st" "new \<in> set news" "fst new \<notin> new_used st"
  shows "side_inv olds news (match_pair old new st)"
  using assms mset_used_insert[OF assms(2,4,5)] mset_used_insert[OF assms(3,6,7)]
  by (simp add: side_inv_def map_filter_append one_sided_def)

lemma side_inv_exact_scan:
  assumes "side_inv olds news st" "distinct (map fst olds)" "distinct (map fst news)"
    "new \<in> set news" "fst new \<notin> new_used st"
  shows "side_inv olds news (exact_scan new olds st)"
proof -
  from exact_scan_cases[of new olds st] show ?thesis
  proof
    assume "exact_scan new olds st = st"
    with assms(1) show ?thesis by simp
  next
    assume "\<exists>old \<in> set olds. fst old \<notin> old_used st \<and> exact_scan new olds st = match_pair old new st"
    then obtain old where "old \<in> set olds" "fst old \<notin> old_used st"
      "exact_scan new olds st = match_pair old new st" by blast
    with side_inv_match_pair[OF assms(1,2,3) this(1,2) assms(4,5)] show ?thesis by simp
  qed
qed

lemma new_used_exact_scan: "new_used (exact_scan new olds st) \<subseteq> insert (fst new) (new_used st)"
  using exact_scan_cases[of new olds st] by auto

lemma side_inv_exact_pass:
  assumes "distinct (map fst olds)" "distinct (map fst news)"
  shows "side_inv olds news st \<Longrightarrow> set rest \<subseteq> set news \<Longrightarrow> distinct (map fst rest) \<Longrightarrow>
         \<forall>n \<in> set rest. fst n \<notin> new_used st \<Longrightarrow>
         side_inv olds news (exact_pass olds rest st)"
proof (induction rest arbitrary: st)
  case Nil
  then show ?case by simp
next
  case (Cons new rest)
  have 1: "side_inv olds news (exact_scan new olds st)"
    using side_inv_exact_scan[OF Cons.prems(1) assms] Cons.prems(2,4) by simp
  have 2: "\<forall>n \<in> set rest. fst n \<notin> new_used (exact_scan new olds st)"
  proof
    fix n assume n: "n \<in> set rest"
    then have "fst n \<in> fst ` set rest" by (rule imageI)
    moreover have "fst new \<notin> fst ` set rest" using Cons.prems(3) by simp
    ultimately have "fst n \<noteq> fst new" by metis
    moreover have "fst n \<notin> new_used st" using Cons.prems(4) n by simp
    ultimately show "fst n \<notin> new_used (exact_scan new olds st)"
      using new_used_exact_scan[of new olds st] by auto
  qed
  from Cons.IH[OF 1 _ _ 2] Cons.prems(2,3) show ?case by simp
qed

lemma side_inv_similar_step:
  assumes "side_inv olds news st" "distinct (map fst olds)" "distinct (map fst news)"
    "new \<in> set news"
  shows "side_inv olds news (similar_step olds new st)"
proof -
  from similar_step_cases[of olds new st] show ?thesis
  proof
    assume "similar_step olds new st = st"
    with assms(1) show ?thesis by simp
  next
    assume "\<exists>old \<in> set olds. fst old \<notin> old_used st \<and> fst new \<notin> new_used st \<and>
      similar_step olds new st = match_pair old new st"
    then obtain old where "old \<in> set olds" "fst old \<notin> old_used st" "fst new \<notin> new_used st"
      "similar_step olds new st = match_pair old new st" by blast
    with side_inv_match_pair[OF assms(1,2,3) this(1,2) assms(4) this(3)] show ?thesis by simp
  qed
qed

lemma side_inv_similar_pass:
  assumes "distinct (map fst olds)" "distinct (map fst news)"
  shows "side_inv olds news st \<Longrightarrow> set rest \<subseteq> set news \<Longrightarrow>
         side_inv olds news (similar_pass olds rest st)"
proof (induction rest arbitrary: st)
  case Nil
  then show ?case by simp
next
  case (Cons new rest)
  have "side_inv olds news (similar_step olds new st)"
    using side_inv_similar_step[OF Cons.prems(1) assms] Cons.prems(2) by simp
  from Cons.IH[OF this] Cons.prems(2) show ?case by simp
qed

lemma map_snd_filter_enumerate:
  "map snd (filter (\<lambda>(i, e). P e) (enumerate n xs)) = filter P xs"
  by (induction xs arbitrary: n) auto

lemma map_snd_filtered: "map snd (filtered elems) = filter (\<lambda>e. etype e \<noteq> WHITESPACE) elems"
  unfolding filtered_def by (rule map_snd_filter_enumerate)

lemma distinct_fst_filtered: "distinct (map fst (filtered elems))"
  unfolding filtered_def by (intro distinct_map_filter) simp

lemma map_filter_removed:
  "List.map_filter fst (removed_pairs olds used) = map snd (filter (\<lambda>p. fst p \<notin> used) olds)"
  "List.map_filter snd (removed_pairs olds used) = []"
  by (induction olds) (auto simp: removed_pairs_def)

lemma map_filter_added:
  "List.map_filter snd (added_pairs news used) = map snd (filter (\<lambda>n. fst n \<notin> used) news)"
  "List.map_filter fst (added_pairs news used) = []"
  by (induction news) (auto simp: added_pairs_def)

lemma mset_split_used:
  "mset (map snd (filter (\<lambda>p. fst p \<in> U) xs)) + mset (map snd (filter (\<lambda>p. fst p \<notin> U) xs))
     = mset (map snd xs)"
  by (induction xs) auto

lemma side_inv_final:
  "side_inv (filtered old_elements) (filtered new_elements)
     (similar_pass (filtered old_elements) (filtered new_elements)
        (exact_pass (filtered old_elements) (filtered new_elements)
           \<lparr>aligned = [], old_used = {}, new_used = {}\<rparr>))"
proof -
  have "side_inv (filtered old_elements) (filtered new_elements)
          \<lparr>aligned = [], old_used = {}, new_used = {}\<rparr>"
    by (simp add: side_inv_def)
  then show ?thesis
    by (intro side_inv_similar_pass side_inv_exact_pass distinct_fst_filtered) simp_all
qed

lemma align_elements_sides:
  "mset (List.map_filter fst (align_elements old_elements new_elements)) =
     mset (filter (\<lambda>e. etype e \<noteq> WHITESPACE) old_elements)"
  "mset (List.map_filter snd (align_elements old_elements new_elements)) =
     mset (filter (\<lambda>e. etype e \<noteq> WHITESPACE) new_elements)"
  "list_all one_sided (align_elements old_elements new_elements)"
proof -
  define olds where "olds = filtered old_elements"
  define news where "news = filtered new_elements"
  define st2 where "st2 = similar_pass olds news
     (exact_pass olds news \<lparr>aligned = [], old_used = {}, new_used = {}\<rparr>)"
  have inv: "side_inv olds news st2"
    unfolding st2_def olds_def news_def by (rule side_inv_final)
  have al: "align_elements old_elements new_elements =
      aligned st2 @ removed_pairs olds (old_used st2) @ added_pairs news (new_used st2)"
    by (simp add: align_elements_def Let_def olds_def news_def st2_def)
  have "mset (List.map_filter fst (align_elements old_elements new_elements)) =
        mset (List.map_filter fst (aligned st2)) +
        mset (map snd (filter (\<lambda>p. fst p \<notin> old_used st2) olds))"
    unfolding al map_filter_append map_filter_removed map_filter_added by simp
  also have "\<dots> = mset (map snd (filter (\<lambda>p. fst p \<in> old_used st2) olds)) +
        mset (map snd (filter (\<lambda>p. fst p \<notin> old_used st2) olds))"
    using inv unfolding side_inv_def by (simp only:)
  also have "\<dots> = mset (map snd olds)" by (rule mset_split_used)
  finally show "mset (List.map_filter fst (align_elements old_elements new_elements)) =
     mset (filter (\<lambda>e. etype e \<noteq> WHITESPACE) old_elements)"
    unfolding olds_def map_snd_filtered .
  have "mset (List.map_filter snd (align_elements old_elements new_elements)) =
        mset (List.map_filter snd (aligned st2)) +
        mset (map snd (filter (\<lambda>p. fst p \<notin> new_used st2) news))"
    unfolding al map_filter_append map_filter_removed map_filter_added by simp
  also have "\<dots> = mset (map snd (filter (\<lambda>p. fst p \<in> new_used st2) news)) +
        mset (map snd (filter (\<lambda>p. fst p \<notin> new_used st2) news))"
    using inv unfolding side_inv_def by (simp only:)
  also have "\<dots> = mset (map snd news)" by (rule mset_split_used)
  finally show "mset (List.map_filter snd (align_elements old_elements new_elements)) =
     mset (filter (\<lambda>e. etype e \<noteq> WHITESPACE) new_elements)"
    unfolding news_def map_snd_filtered .
  have "list_all one_sided (aligned st2)" using inv by (simp add: side_inv_def)
  then show "list_all one_sided (align_elements old_elements new_elements)"
    unfolding al by (auto simp: removed_pairs_def added_pairs_def one_sided_def list_all_iff)
qed


section \<open>The diff of a pair\<close>

text \<open>
  The classification of one aligned pair in the words of the specification: equal
  content on both sides is Unchanged, a new side alone is Added, an old side alone is
  Removed, different content is Modified with the similarity of the two contents; the
  similarity entry is there for Modified only.
\<close>

definition classified :: "aligned_pair \<Rightarrow> ElementDiff \<Rightarrow> bool" where
  "classified p d =
     (case p of
        (Some old_elem, Some new_elem) \<Rightarrow>
          if content old_elem = content new_elem
          then change_type d = UNCHANGED \<and> details d ''similarity'' = None
          else change_type d = MODIFIED \<and>
               details d ''similarity'' =
                 Some (compute_similarity (content old_elem) (content new_elem))
      | (None, Some new_elem) \<Rightarrow> change_type d = ADDED \<and> details d ''similarity'' = None
      | (Some old_elem, None) \<Rightarrow> change_type d = REMOVED \<and> details d ''similarity'' = None
      | (None, None) \<Rightarrow> False)"

lemma diff_pair_classified:
  "one_sided p \<Longrightarrow> \<exists>d. diff_pair p = Inr d \<and> classified p d \<and>
     ((details d ''similarity'' \<noteq> None) = (change_type d = MODIFIED))"
  by (cases p rule: diff_pair.cases) (auto simp: one_sided_def classified_def)

lemma build_diffs_classified:
  "list_all one_sided ps \<Longrightarrow>
   \<exists>ds'. build_diffs ps ds = Inr (ds @ ds') \<and> list_all2 classified ps ds' \<and>
     list_all (\<lambda>d. (details d ''similarity'' \<noteq> None) = (change_type d = MODIFIED)) ds'"
proof (induction ps arbitrary: ds)
  case Nil
  then show ?case by simp
next
  case (Cons p ps)
  then have "one_sided p" by simp
  from diff_pair_classified[OF this]
  obtain d where d: "diff_pair p = Inr d" "classified p d"
      "(details d ''similarity'' \<noteq> None) = (change_type d = MODIFIED)"
    by blast
  have "list_all one_sided ps" using Cons.prems by simp
  from Cons.IH[OF this, of "ds @ [d]"]
  obtain ds' where ds': "build_diffs ps (ds @ [d]) = Inr ((ds @ [d]) @ ds')"
      "list_all2 classified ps ds'"
      "list_all (\<lambda>d. (details d ''similarity'' \<noteq> None) = (change_type d = MODIFIED)) ds'"
    by blast
  show ?case
    by (rule exI[of _ "d # ds'"]) (use d ds' in simp)
qed

lemma diff_prompts_result:
  "\<exists>ds. diff_prompts old_text new_text old_label new_label =
     Inr \<lparr>old_path = old_label, new_path = new_label, element_diffs = ds,
          old_variables = get_all_variables (parse_prompt old_text),
          new_variables = get_all_variables (parse_prompt new_text),
          added_variables = get_all_variables (parse_prompt new_text)
                            - get_all_variables (parse_prompt old_text),
          removed_variables = get_all_variables (parse_prompt old_text)
                              - get_all_variables (parse_prompt new_text),
          similarity = compute_similarity old_text new_text\<rparr> \<and>
     list_all2 classified (align_elements (parse_prompt old_text) (parse_prompt new_text)) ds \<and>
     list_all (\<lambda>d. (details d ''similarity'' \<noteq> None) = (change_type d = MODIFIED)) ds"
  using build_diffs_classified[OF align_elements_sides(3), of "parse_prompt old_text" "parse_prompt new_text" "[]"]
  by (auto simp: diff_prompts_def Let_def)

text \<open>
  Claim C5. \<^verbatim>\<open>diff_prompts\<close> returns a result for every two texts, and its element
  diffs classify the aligned pairs one by one, in order, as the specification says; an
  element diff has a similarity entry in its details exactly when it is Modified.
\<close>

theorem diff_pair_classification:
  "\<exists>r. diff_prompts old_text new_text old_label new_label = Inr r \<and>
     list_all2 classified (align_elements (parse_prompt old_text) (parse_prompt new_text))
       (element_diffs r) \<and>
     list_all (\<lambda>d. (details d ''similarity'' \<noteq> None) = (change_type d = MODIFIED))
       (element_diffs r)"
  using diff_prompts_result[of old_text new_text old_label new_label] by auto

section \<open>Variables added one way are variables removed the other way\<close>

text \<open>
  Claim C7. For all texts \<open>a\<close> and \<open>b\<close> and any labels, both comparisons return a
  result, and the variables added from \<open>a\<close> to \<open>b\<close> are the variables removed from
  \<open>b\<close> to \<open>a\<close>.
\<close>

theorem variable_detection_symmetry:
  "\<exists>r1 r2. diff_prompts a b label_a label_b = Inr r1 \<and>
           diff_prompts b a label_b' label_a' = Inr r2 \<and>
           added_variables r1 = removed_variables r2"
  using diff_prompts_result[of a b label_a label_b] diff_prompts_result[of b a label_b' label_a']
  by auto

section \<open>Alignment totality\<close>






section \<open>The similarity pass\<close>








section \<open>The similarity score\<close>

subsection \<open>A sequence matched with itself\<close>

text \<open>
  With the junk heuristic an element that is popular has no entry in \<^verbatim>\<open>b2j\<close>, so the
  main loop of \<^verbatim>\<open>find_longest_match\<close> sees only the cells \<open>(i, j)\<close> whose common
  element is not popular. \<open>run a i j\<close> is the number the loop stores for such a cell
  when the sequence is matched with itself: the length of the run of equal elements that
  are not popular and end at \<open>a[i]\<close> and \<open>a[j]\<close>. A run off the diagonal is no longer
  than the run on the diagonal at its row or at its column, which the loop met before;
  so the best block of the main loop lies on the diagonal, and the two extension loops
  stretch it over the whole sequence.
\<close>

definition popular :: "'a list \<Rightarrow> 'a \<Rightarrow> bool" where
  "popular b x =
     (200 \<le> length b \<and> length b div 100 + 1 < length (filter (\<lambda>j. b ! j = x) [0..<length b]))"

lemma b2j_popular:
  "b2j b x = (if popular b x then [] else filter (\<lambda>j. b ! j = x) [0..<length b])"
  by (simp add: b2j_def popular_def Let_def)

lemma b2j_mem: "j \<in> set (b2j b x) \<longleftrightarrow> j < length b \<and> b ! j = x \<and> \<not> popular b x"
  by (auto simp: b2j_popular)

lemma b2j_sorted: "sorted_wrt (<) (b2j b x)"
  by (simp add: b2j_popular sorted_wrt_filter)

fun run :: "'a list \<Rightarrow> nat \<Rightarrow> nat \<Rightarrow> nat" where
  "run a 0 j = (if a ! 0 = a ! j \<and> \<not> popular a (a ! j) then 1 else 0)"
| "run a (Suc i) 0 = (if a ! Suc i = a ! 0 \<and> \<not> popular a (a ! 0) then 1 else 0)"
| "run a (Suc i) (Suc j) =
     (if a ! Suc i = a ! Suc j \<and> \<not> popular a (a ! Suc j) then run a i j + 1 else 0)"

definition prev_run :: "'a list \<Rightarrow> nat \<Rightarrow> nat \<Rightarrow> nat" where
  "prev_run a i j = (if i = 0 \<or> j = 0 then 0 else run a (i - 1) (j - 1))"

lemma run_prev:
  "run a i j = (if a ! i = a ! j \<and> \<not> popular a (a ! j) then prev_run a i j + 1 else 0)"
  by (cases i; cases j) (simp_all add: prev_run_def)

lemma run_le_diag_col: "j \<le> i \<Longrightarrow> run a i j \<le> run a j j"
  by (induction a i j rule: run.induct) auto

lemma run_le_diag_row: "i \<le> j \<Longrightarrow> run a i j \<le> run a i i"
  by (induction a i j rule: run.induct) auto


lemma row_loop_map:
  "\<forall>j \<in> set js. j < n \<Longrightarrow>
   fst (row_loop i 0 n m js (new, best)) =
     (\<lambda>j. if j \<in> set js then Some (j2len_get m j + 1) else new j)"
proof (induction js arbitrary: new best)
  case Nil
  then show ?case by simp
next
  case (Cons j js)
  obtain bi bj bs where best: "best = (bi, bj, bs)" by (metis prod_cases3)
  have j: "j < n" using Cons.prems by simp
  have "fst (row_loop i 0 n m (j # js) (new, best)) =
        fst (row_loop i 0 n m js (new(j \<mapsto> j2len_get m j + 1),
               if bs < j2len_get m j + 1
               then (i + 1 - (j2len_get m j + 1), j + 1 - (j2len_get m j + 1), j2len_get m j + 1)
               else (bi, bj, bs)))"
    using j by (simp add: best Let_def)
  also have "\<dots> = (\<lambda>j'. if j' \<in> set js then Some (j2len_get m j' + 1)
                         else (new(j \<mapsto> j2len_get m j + 1)) j')"
    using Cons.prems by (intro Cons.IH) simp
  also have "\<dots> = (\<lambda>j'. if j' \<in> set (j # js) then Some (j2len_get m j' + 1) else new j')"
    by (rule ext) simp
  finally show ?case .
qed

lemma row_loop_diag:
  assumes prev: "\<forall>j<n. j2len_get m j = prev_run a i j"
  shows "\<forall>j \<in> set js. j < n \<and> a ! j = a ! i \<and> \<not> popular a (a ! i) \<Longrightarrow>
         sorted_wrt (<) js \<Longrightarrow>
         \<forall>i'<i. \<forall>j'<n. run a i' j' \<le> bs \<Longrightarrow>
         \<forall>j'<n. j' \<notin> set js \<longrightarrow> run a i j' \<le> bs \<Longrightarrow>
         i < n \<Longrightarrow>
         \<exists>d s. snd (row_loop i 0 n m js (new, (bi, bi, bs))) = (d, d, s) \<and> bs \<le> s \<and>
               (\<forall>j'<n. run a i j' \<le> s)"
proof (induction js arbitrary: new bi bs)
  case Nil
  then show ?case by simp
next
  case (Cons j js)
  define k where "k = j2len_get m j + 1"
  have j: "j < n" "a ! j = a ! i" "\<not> popular a (a ! i)" using Cons.prems(1) by simp_all
  have cells: "\<forall>j \<in> set js. j < n \<and> a ! j = a ! i \<and> \<not> popular a (a ! i)"
    using Cons.prems(1) by simp
  have sorted: "sorted_wrt (<) js" and above: "\<forall>j' \<in> set js. j < j'"
    using Cons.prems(2) by simp_all
  have k: "k = run a i j"
    using prev j by (simp add: k_def run_prev[of a i j])
  have step: "row_loop i 0 n m (j # js) (new, (bi, bi, bs)) =
        row_loop i 0 n m js (new(j \<mapsto> k), if bs < k then (i + 1 - k, j + 1 - k, k) else (bi, bi, bs))"
    using j(1) by (simp add: k_def Let_def)
  show ?case
  proof (cases "bs < k")
    case True
    have "i = j"
    proof (rule ccontr)
      assume ne: "i \<noteq> j"
      show False
      proof (cases "j < i")
        case True
        have "run a i j \<le> run a j j" using True by (intro run_le_diag_col) simp
        also have "\<dots> \<le> bs" using Cons.prems(3) True j(1) by simp
        finally show False using \<open>bs < k\<close> k by simp
      next
        case False
        then have lt: "i < j" using ne by simp
        then have "i \<notin> set (j # js)" using above by auto
        then have "run a i i \<le> bs" using Cons.prems(4,5) by simp
        moreover have "run a i j \<le> run a i i" using lt by (intro run_le_diag_row) simp
        ultimately show False using \<open>bs < k\<close> k by simp
      qed
    qed
    have h1: "\<forall>i'<i. \<forall>j'<n. run a i' j' \<le> k"
      using Cons.prems(3) True by (meson le_trans less_imp_le)
    have h2: "\<forall>j'<n. j' \<notin> set js \<longrightarrow> run a i j' \<le> k"
    proof (intro allI impI)
      fix j' assume "j' < n" "j' \<notin> set js"
      show "run a i j' \<le> k"
      proof (cases "j' = j")
        case True
        then show ?thesis using k by simp
      next
        case False
        then have "run a i j' \<le> bs" using Cons.prems(4) \<open>j' < n\<close> \<open>j' \<notin> set js\<close> by simp
        then show ?thesis using \<open>bs < k\<close> by simp
      qed
    qed
    from Cons.IH[OF cells sorted h1 h2 Cons.prems(5), of "new(j \<mapsto> k)" "i + 1 - k"]
    obtain d s where ds: "snd (row_loop i 0 n m js (new(j \<mapsto> k), (i + 1 - k, i + 1 - k, k))) = (d, d, s)"
        "k \<le> s" "\<forall>j'<n. run a i j' \<le> s" by blast
    have step': "row_loop i 0 n m (j # js) (new, (bi, bi, bs)) =
        row_loop i 0 n m js (new(j \<mapsto> k), (i + 1 - k, i + 1 - k, k))"
      unfolding step using True \<open>i = j\<close> by (simp only: if_True)
    have "bs \<le> s" using True ds(2) by simp
    with ds(1,3) show ?thesis
      unfolding step' by blast
  next
    case False
    have h2: "\<forall>j'<n. j' \<notin> set js \<longrightarrow> run a i j' \<le> bs"
    proof (intro allI impI)
      fix j' assume "j' < n" "j' \<notin> set js"
      show "run a i j' \<le> bs"
      proof (cases "j' = j")
        case True
        then show ?thesis using k False by simp
      next
        case F: False
        then show ?thesis using Cons.prems(4) \<open>j' < n\<close> \<open>j' \<notin> set js\<close> by simp
      qed
    qed
    have step': "row_loop i 0 n m (j # js) (new, (bi, bi, bs)) =
        row_loop i 0 n m js (new(j \<mapsto> k), (bi, bi, bs))"
      unfolding step using False by (simp only: if_False)
    show ?thesis
      unfolding step'
      by (rule Cons.IH[OF cells sorted Cons.prems(3) h2 Cons.prems(5), of "new(j \<mapsto> k)" bi])
  qed
qed


lemma rows_loop_diag:
  assumes n: "n = length a"
  shows "\<forall>j<n. j2len_get m j = prev_run a i j \<Longrightarrow>
         \<forall>i'<i. \<forall>j'<n. run a i' j' \<le> bs \<Longrightarrow>
         \<exists>d s. snd (rows_loop a a 0 n [i..<n] (m, (bi, bi, bs))) = (d, d, s)"
proof (induction "n - i" arbitrary: i m bi bs)
  case 0
  then show ?case by simp
next
  case (Suc x)
  then have lt: "i < n" by simp
  define js where "js = b2j a (a ! i)"
  define m' where "m' = fst (row_loop i 0 n m js (Map.empty, (bi, bi, bs)))"
  have cells: "\<forall>j \<in> set js. j < n \<and> a ! j = a ! i \<and> \<not> popular a (a ! i)"
    by (simp add: js_def b2j_mem n)
  have h2: "\<forall>j'<n. j' \<notin> set js \<longrightarrow> run a i j' \<le> bs"
  proof (intro allI impI)
    fix j' assume "j' < n" "j' \<notin> set js"
    then have "\<not> (a ! i = a ! j' \<and> \<not> popular a (a ! j'))"
      by (auto simp: js_def b2j_mem n)
    then have "run a i j' = 0" by (subst run_prev) (simp only: if_False)
    then show "run a i j' \<le> bs" by simp
  qed
  have srt: "sorted_wrt (<) js" by (simp add: js_def b2j_sorted)
  from row_loop_diag[OF Suc.prems(1) cells srt Suc.prems(2) h2 lt, of Map.empty bi]
  obtain d s where ds: "snd (row_loop i 0 n m js (Map.empty, (bi, bi, bs))) = (d, d, s)"
      "bs \<le> s" "\<forall>j'<n. run a i j' \<le> s"
    by blast
  have "\<forall>j \<in> set js. j < n" using cells by simp
  then have m': "m' = (\<lambda>j. if j \<in> set js then Some (j2len_get m j + 1) else None)"
    unfolding m'_def by (rule row_loop_map)
  have prev': "\<forall>j<n. j2len_get m' j = prev_run a (Suc i) j"
  proof (intro allI impI)
    fix j assume j: "j < n"
    show "j2len_get m' j = prev_run a (Suc i) j"
    proof (cases j)
      case 0
      then show ?thesis by (simp add: j2len_get_def prev_run_def)
    next
      case (Suc j0)
      then have j0: "j0 < n" using j by simp
      have mem: "j0 \<in> set js \<longleftrightarrow> a ! i = a ! j0 \<and> \<not> popular a (a ! j0)"
        using j0 by (auto simp: js_def b2j_mem n)
      have "j2len_get m j0 = prev_run a i j0" using Suc.prems(1) j0 by simp
      moreover have "j2len_get m' j = (if j0 \<in> set js then j2len_get m j0 + 1 else 0)"
        using Suc by (simp add: j2len_get_def m')
      moreover have "prev_run a (Suc i) j = run a i j0"
        using Suc by (simp add: prev_run_def)
      moreover have "run a i j0 = (if j0 \<in> set js then prev_run a i j0 + 1 else 0)"
        unfolding mem by (rule run_prev)
      ultimately show ?thesis by simp
    qed
  qed
  have h1': "\<forall>i'<Suc i. \<forall>j'<n. run a i' j' \<le> s"
  proof (intro allI impI)
    fix i' j' assume "i' < Suc i" "j' < n"
    show "run a i' j' \<le> s"
    proof (cases "i' = i")
      case True
      then show ?thesis using ds(3) \<open>j' < n\<close> by simp
    next
      case False
      then have "i' < i" using \<open>i' < Suc i\<close> by simp
      then have "run a i' j' \<le> bs" using Suc.prems(2) \<open>j' < n\<close> by simp
      then show ?thesis using ds(2) by simp
    qed
  qed
  have "x = n - Suc i" using Suc.hyps(2) by simp
  from Suc.hyps(1)[OF this prev' h1', of d]
  obtain d' s' where "snd (rows_loop a a 0 n [Suc i..<n] (m', (d, d, s))) = (d', d', s')" by blast
  moreover have "row_loop i 0 n m js (Map.empty, (bi, bi, bs)) = (m', (d, d, s))"
    using ds(1) unfolding m'_def by (metis prod.collapse)
  moreover have "rows_loop a a 0 n [i..<n] (m, (bi, bi, bs)) =
      rows_loop a a 0 n [Suc i..<n] (row_loop i 0 n m js (Map.empty, (bi, bi, bs)))"
    unfolding upt_conv_Cons[OF lt] js_def by simp
  ultimately show ?case by metis
qed

lemma extend_left_diag:
  "extend_left (\<lambda>x. \<not> isbjunk x) a a 0 0 (d, d, s) = (0, 0, s + d)"
proof (induction d arbitrary: s)
  case 0
  then show ?case by (subst extend_left.simps) simp
next
  case (Suc d)
  have "extend_left (\<lambda>x. \<not> isbjunk x) a a 0 0 (Suc d, Suc d, s) =
        extend_left (\<lambda>x. \<not> isbjunk x) a a 0 0 (d, d, s + 1)"
    by (subst extend_left.simps) (simp add: isbjunk_def)
  with Suc[of "s + 1"] show ?case by simp
qed

lemma extend_right_diag:
  "s \<le> n \<Longrightarrow> extend_right (\<lambda>x. \<not> isbjunk x) a a n n (0, 0, s) = (0, 0, n)"
proof (induction "n - s" arbitrary: s)
  case 0
  then show ?case by (subst extend_right.simps) simp
next
  case (Suc x)
  then have "s < n" by simp
  then have "extend_right (\<lambda>x. \<not> isbjunk x) a a n n (0, 0, s) =
        extend_right (\<lambda>x. \<not> isbjunk x) a a n n (0, 0, s + 1)"
    by (subst extend_right.simps) (simp add: isbjunk_def)
  moreover have "x = n - (s + 1)" "s + 1 \<le> n" using Suc.hyps(2) by simp_all
  ultimately show ?case using Suc.hyps(1)[of "s + 1"] by simp
qed

lemma extend_left_junk: "extend_left isbjunk a b alo blo blk = blk"
proof -
  obtain i j k where blk: "blk = (i, j, k)" by (metis prod_cases3)
  show ?thesis unfolding blk by (subst extend_left.simps) (simp add: isbjunk_def)
qed

lemma extend_right_junk: "extend_right isbjunk a b ahi bhi blk = blk"
proof -
  obtain i j k where blk: "blk = (i, j, k)" by (metis prod_cases3)
  show ?thesis unfolding blk by (subst extend_right.simps) (simp add: isbjunk_def)
qed

lemma find_longest_match_self:
  "find_longest_match a a 0 (length a) 0 (length a) = (0, 0, length a)"
proof -
  define n where "n = length a"
  have "\<forall>j<n. j2len_get Map.empty j = prev_run a 0 j"
    by (simp add: j2len_get_def prev_run_def)
  from rows_loop_diag[OF n_def this, of 0 0]
  obtain d s where ds: "snd (rows_loop a a 0 n [0..<n] (Map.empty, (0, 0, 0))) = (d, d, s)"
    by auto
  have "block_ok 0 (max 0 n) 0 n (snd (rows_loop a a 0 n [0..<n] (Map.empty, (0, 0, 0))))"
    by (intro rows_loop_ok) (simp_all add: j2len_ok_empty block_ok_def)
  then have "s + d \<le> n" using ds by (auto simp: block_ok_def)
  then show ?thesis
    unfolding find_longest_match_def Let_def n_def[symmetric] ds extend_left_junk extend_right_junk extend_left_diag
    by (rule extend_right_diag)
qed

subsection \<open>The total size of the matching blocks\<close>

definition size_sum :: "block list \<Rightarrow> nat" where
  "size_sum blocks = sum_list (map (\<lambda>(i, j, k). k) blocks)"

lemma size_sum_simps [simp]:
  "size_sum [] = 0"
  "size_sum ((i, j, k) # bs) = k + size_sum bs"
  "size_sum (xs @ ys) = size_sum xs + size_sum ys"
  by (simp_all add: size_sum_def)

lemma size_sum_mset: "mset xs = mset ys \<Longrightarrow> size_sum xs = size_sum ys"
  unfolding size_sum_def by (metis mset_map sum_mset_sum_list)

lemma size_sum_sort: "size_sum (sort xs) = size_sum xs"
  by (rule size_sum_mset) simp

lemma size_sum_collapse:
  "collapse blocks (i1, j1, k1) non_adjacent = (non_adjacent', (i', j', k')) \<Longrightarrow>
   size_sum non_adjacent' + k' = size_sum non_adjacent + k1 + size_sum blocks"
proof (induction blocks arbitrary: i1 j1 k1 non_adjacent)
  case Nil
  then show ?case by simp
next
  case (Cons blk rest)
  obtain i2 j2 k2 where blk: "blk = (i2, j2, k2)" by (metis prod_cases3)
  show ?case
  proof (cases "i1 + k1 = i2 \<and> j1 + k1 = j2")
    case True
    with Cons.prems have "collapse rest (i1, j1, k1 + k2) non_adjacent = (non_adjacent', (i', j', k'))"
      by (simp add: blk)
    from Cons.IH[OF this] show ?thesis by (simp add: blk)
  next
    case False
    with Cons.prems have "collapse rest (i2, j2, k2)
        (if k1 \<noteq> 0 then non_adjacent @ [(i1, j1, k1)] else non_adjacent) = (non_adjacent', (i', j', k'))"
      by (simp add: blk)
    from Cons.IH[OF this] show ?thesis by (simp add: blk)
  qed
qed

lemma size_sum_get_matching_blocks:
  "size_sum (get_matching_blocks a b) = size_sum (blocks_loop a b [(0, length a, 0, length b)] [])"
proof -
  obtain na i1 j1 k1 where c: "collapse (sort (blocks_loop a b [(0, length a, 0, length b)] [])) (0, 0, 0) [] = (na, (i1, j1, k1))"
    by (metis prod_cases3)
  from size_sum_collapse[OF c] have "size_sum na + k1 = size_sum (blocks_loop a b [(0, length a, 0, length b)] [])"
    by (simp add: size_sum_sort)
  then show ?thesis
    by (simp add: get_matching_blocks_def Let_def c)
qed

fun capacity :: "(nat \<times> nat \<times> nat \<times> nat) list \<Rightarrow> nat" where
  "capacity [] = 0"
| "capacity ((alo, ahi, blo, bhi) # queue) = min (ahi - alo) (bhi - blo) + capacity queue"

lemma size_sum_blocks_loop:
  "size_sum (blocks_loop a b queue blocks) \<le> size_sum blocks + capacity queue"
proof (induction a b queue blocks rule: blocks_loop.induct)
  case (1 a b matching_blocks)
  then show ?case by (simp add: blocks_loop.simps)
next
  case (2 a b alo ahi blo bhi queue matching_blocks)
  obtain i j k where f: "find_longest_match a b alo ahi blo bhi = (i, j, k)"
    by (metis prod_cases3)
  have ok: "block_ok alo ahi blo bhi (i, j, k)"
    using find_longest_match_ok[of alo ahi blo bhi a b] f by simp
  show ?case
  proof (cases "k = 0")
    case True
    with 2(2)[OF f[symmetric] refl] f show ?thesis by (simp add: blocks_loop.simps)
  next
    case False
    define queue1 where "queue1 = (if alo < i \<and> blo < j then (alo, i, blo, j) # queue else queue)"
    define queue2 where "queue2 = (if i + k < ahi \<and> j + k < bhi then (i + k, ahi, j + k, bhi) # queue1 else queue1)"
    have ih: "size_sum (blocks_loop a b queue2 (matching_blocks @ [(i, j, k)]))
                \<le> size_sum (matching_blocks @ [(i, j, k)]) + capacity queue2"
      using 2(1)[OF f[symmetric] refl False queue1_def queue2_def] .
    have "k + capacity queue2 \<le> min (ahi - alo) (bhi - blo) + capacity queue"
      using ok False by (auto simp: queue1_def queue2_def block_ok_def)
    with ih have "size_sum (blocks_loop a b queue2 (matching_blocks @ [(i, j, k)]))
                \<le> size_sum matching_blocks + (min (ahi - alo) (bhi - blo) + capacity queue)"
      by simp
    moreover have "blocks_loop a b ((alo, ahi, blo, bhi) # queue) matching_blocks =
        blocks_loop a b queue2 (matching_blocks @ [(i, j, k)])"
      using f False by (simp add: queue1_def queue2_def Let_def blocks_loop.simps)
    ultimately show ?thesis by simp
  qed
qed

lemma matches_le:
  "size_sum (get_matching_blocks a b) \<le> min (length a) (length b)"
  using size_sum_blocks_loop[of a b "[(0, length a, 0, length b)]" "[]"]
  by (simp add: size_sum_get_matching_blocks)

lemma ratio_bounds: "0 \<le> ratio a b \<and> ratio a b \<le> 1"
proof -
  have "2 * size_sum (get_matching_blocks a b) \<le> length a + length b"
    using matches_le[of a b] by simp
  then have "(2 * of_nat (size_sum (get_matching_blocks a b)) :: rat) \<le> of_nat (length a + length b)"
    by (metis of_nat_le_iff of_nat_mult of_nat_numeral)
  then show ?thesis
    by (auto simp: ratio_def calculate_ratio_def size_sum_def[symmetric] divide_le_eq)
qed

lemma compute_similarity_bounds:
  "0 \<le> compute_similarity a b \<and> compute_similarity a b \<le> 1"
  using ratio_bounds[of a b] by (simp add: compute_similarity_def)

lemma blocks_loop_self:
  "a \<noteq> [] \<Longrightarrow> blocks_loop a a [(0, length a, 0, length a)] [] = [(0, 0, length a)]"
  by (simp add: blocks_loop.simps find_longest_match_self)

lemma ratio_self: "a \<noteq> [] \<Longrightarrow> ratio a a = 1"
proof -
  assume a: "a \<noteq> []"
  have "size_sum (get_matching_blocks a a) = length a"
    by (simp add: size_sum_get_matching_blocks blocks_loop_self[OF a])
  then show ?thesis
    using a by (simp add: ratio_def calculate_ratio_def size_sum_def[symmetric])
qed

text \<open>
  Claim C8. For all strings the similarity lies between 0 and 1; the similarity of a
  string with itself is 1; the similarity of the empty string with itself is 1; and
  the similarity of a string that is not empty with the empty string, on either side,
  is 0.
\<close>

theorem similarity_bounds:
  "0 \<le> compute_similarity a b \<and> compute_similarity a b \<le> 1 \<and>
   compute_similarity a a = 1 \<and>
   compute_similarity [] [] = 1 \<and>
   compute_similarity (c # cs) [] = 0 \<and> compute_similarity [] (c # cs) = 0"
proof -
  have "compute_similarity a a = 1"
    by (cases "a = []") (simp_all add: compute_similarity_def ratio_self)
  then show ?thesis
    using compute_similarity_bounds[of a b] by (simp add: compute_similarity_def)
qed
end
